theory Spec2Isabelle
  imports Main "HOL-Library.AList"
begin

section \<open>The watchable store of storage/watchable\_store.go\<close>

text \<open>
  The Go file keeps two registries of watchers, \<open>synced\<close> and \<open>unsynced\<close>, beside an
  MVCC store. Watchers are heap objects reached through pointers, channels are shared
  buffers, and Go maps are iterated in an unspecified order. The embedding makes all of
  this explicit:
  \<^item> a pointer \<open>*watcher\<close> is an address (a natural number, \<open>0\<close> is \<open>nil\<close>) into the
    field \<open>heap\<close> of the state;
  \<^item> a channel is an identifier; the state holds every channel's buffered responses and
    its capacity, and \<open>select { case ch <- r: ... default: ... }\<close> is \<open>trySend\<close>;
  \<^item> a Go map used as a set (\<open>map[*watcher]struct{}\<close>) is a list without duplicates, a
    Go map is an association list, and a \<open>range\<close> loop visits it in list order. A theorem
    about one operation speaks of every state, hence of every order of the maps it
    ranges over; the reachable states are closed under reordering (\<open>same_maps\<close>);
  \<^item> \<open>int64\<close> values are modelled as \<open>int\<close>: the code computes only \<open>curRev + 1\<close> and
    comparisons, and no claim concerns a revision at \<open>math.MaxInt64\<close>;
  \<^item> the mutexes, the wait group and the metric gauges are not modelled: every operation
    below is one critical section.
\<close>

subsection \<open>Data\<close>

type_synonym ptr = nat
type_synonym chan = nat

definition nil :: ptr where
  "nil = 0"

datatype error = Panic string | Error string

datatype EventType = PUT | DELETE

text \<open>\<open>storagepb.KeyValue\<close>; \<open>Value\<close> is \<open>None\<close> for a nil byte slice.\<close>

record KeyValue =
  Key :: string
  CreateRevision :: int
  ModRevision :: int
  Version :: int
  Value :: "string option"
  Lease :: int

record Event =
  Type :: EventType
  Kv :: KeyValue

record WatchResponse =
  WatchID :: int
  Events :: "Event list"
  Revision :: int

record watcher =
  key :: string
  prefix :: bool
  cur :: int
  id_w :: int
  ch :: chan

text \<open>
  Modelled from the spec: the inner MVCC store (\<open>*store\<close>, embedded in
  \<open>watchableStore\<close>) is not in the source file. The watch layer reads from it
  \<open>currentRev.main\<close>, \<open>compactMainRev\<close>, the result of \<open>getChanges()\<close> and the key bucket
  of the backend, whose keys are encoded revisions carrying a tombstone mark and whose
  values are marshalled key-value pairs (\<open>None\<close> stands for bytes that do not unmarshal).
\<close>

record revKey =
  main :: int
  sub :: int
  tombstone :: bool

record store =
  currentRev :: int
  compactMainRev :: int
  changes :: "KeyValue list"
  keyBucket :: "(revKey \<times> KeyValue option) list"

text \<open>Modelled from the spec: \<open>Rev()\<close> returns \<open>currentRev\<close>, the latest assigned revision.\<close>

definition Rev :: "store \<Rightarrow> int" where
  "Rev st = currentRev st"

text \<open>Modelled from the spec: \<open>getChanges()\<close> returns the key-values of the last commit.\<close>

definition getChanges :: "store \<Rightarrow> KeyValue list" where
  "getChanges st = changes st"

text \<open>
  Modelled from the spec: \<open>UnsafeRange(keyBucketName, min, max, 0)\<close> with \<open>min\<close> and
  \<open>max\<close> the encodings of \<open>revision{main: lo}\<close> and \<open>revision{main: hi}\<close> returns, in
  bucket order, the records whose revision lies in the half-open range \<open>[lo, hi)\<close>.
\<close>

definition UnsafeRange :: "store \<Rightarrow> int \<Rightarrow> int \<Rightarrow> (revKey \<times> KeyValue option) list" where
  "UnsafeRange st lo hi = filter (\<lambda>(k, v). lo \<le> main k \<and> main k < hi) (keyBucket st)"

text \<open>Modelled from the spec: \<open>isTombstone\<close> reads the tombstone mark of a revision key.\<close>

definition isTombstone :: "revKey \<Rightarrow> bool" where
  "isTombstone k = tombstone k"

record watchableStore =
  store :: store
  unsynced :: "ptr list"
  synced :: "(string \<times> ptr list) list"
  heap :: "ptr \<Rightarrow> watcher"
  nextp :: ptr
  chans :: "chan \<Rightarrow> WatchResponse list"
  cap :: "chan \<Rightarrow> nat"
  nextc :: chan

definition chanBufLen :: nat where
  "chanBufLen = 1024"

definition MaxInt64 :: int where
  "MaxInt64 = 9223372036854775807"

subsection \<open>Channels\<close>

text \<open>\<open>make(chan WatchResponse, n)\<close>: a fresh channel of capacity \<open>n\<close>.\<close>

definition makeChan :: "nat \<Rightarrow> watchableStore \<Rightarrow> chan \<times> watchableStore" where
  "makeChan n s =
     (nextc s, s\<lparr>chans := (chans s)(nextc s := []), cap := (cap s)(nextc s := n),
                 nextc := Suc (nextc s)\<rparr>)"

text \<open>\<open>NewWatchStream\<close> creates the stream's channel with capacity \<open>chanBufLen\<close>.\<close>

definition NewWatchStream :: "watchableStore \<Rightarrow> chan \<times> watchableStore" where
  "NewWatchStream s = makeChan chanBufLen s"

text \<open>
  The non-blocking send \<open>select { case c <- r: ...  default: ... }\<close>: \<open>Some\<close> the state
  with \<open>r\<close> enqueued when the buffer has room, \<open>None\<close> when the \<open>default\<close> branch runs.
\<close>

definition trySend :: "chan \<Rightarrow> WatchResponse \<Rightarrow> watchableStore \<Rightarrow> watchableStore option" where
  "trySend c r s =
     (if length (chans s c) < cap s c
      then Some (s\<lparr>chans := (chans s)(c := chans s c @ [r])\<rparr>)
      else None)"

text \<open>The reader of a stream takes the oldest response from the channel.\<close>

definition recv :: "chan \<Rightarrow> watchableStore \<Rightarrow> watchableStore" where
  "recv c s = s\<lparr>chans := (chans s)(c := tl (chans s c))\<rparr>"

subsection \<open>The registry\<close>

definition newWatchableStore :: "store \<Rightarrow> watchableStore" where
  "newWatchableStore st =
     \<lparr>store = st, unsynced = [], synced = [],
      heap = (\<lambda>_. \<lparr>key = [], prefix = False, cur = 0, id_w = 0, ch = 0\<rparr>),
      nextp = Suc nil, chans = (\<lambda>_. []), cap = (\<lambda>_. 0), nextc = 0\<rparr>"

definition unsafeAddWatcher ::
  "(string \<times> ptr list) list \<Rightarrow> string \<Rightarrow> ptr \<Rightarrow> error + (string \<times> ptr list) list" where
  "unsafeAddWatcher mp k wa =
     (if wa = nil then Inl (Error ''nil watcher received'')
      else case map_of mp k of
        Some v \<Rightarrow>
          if wa \<in> set v then Inl (Error ''put the same watcher twice'')
          else Inr (AList.update k (v @ [wa]) mp)
      | None \<Rightarrow> Inr (AList.update k [wa] mp))"

text \<open>
  The closure \<open>cancel\<close> returned by \<open>watch\<close>; it captures the watcher \<open>wa\<close> and the
  string \<open>k\<close> of its key.
\<close>

definition cancel :: "ptr \<Rightarrow> string \<Rightarrow> watchableStore \<Rightarrow> watchableStore" where
  "cancel wa k s =
     (if wa \<in> set (unsynced s) then s\<lparr>unsynced := removeAll wa (unsynced s)\<rparr>
      else case map_of (synced s) k of
        Some v \<Rightarrow>
          if wa \<in> set v then
            (let v' = removeAll wa v in
             if length v' = 0 then s\<lparr>synced := AList.delete k (synced s)\<rparr>
             else s\<lparr>synced := AList.update k v' (synced s)\<rparr>)
          else s
      | None \<Rightarrow> s)"

definition watch ::
  "string \<Rightarrow> bool \<Rightarrow> int \<Rightarrow> int \<Rightarrow> chan \<Rightarrow> watchableStore \<Rightarrow>
   error + ((ptr \<times> (watchableStore \<Rightarrow> watchableStore)) \<times> watchableStore)" where
  "watch key' prefix' startRev id' ch' s =
     (let wa = nextp s;
          s1 = s\<lparr>heap := (heap s)(wa := \<lparr>key = key', prefix = prefix', cur = startRev,
                                          id_w = id', ch = ch'\<rparr>),
                 nextp := Suc wa\<rparr>;
          k = key'
      in if startRev = 0 then
           (case unsafeAddWatcher (synced s1) k wa of
              Inl err \<Rightarrow> Inl (Panic ''error unsafeAddWatcher'')
            | Inr mp \<Rightarrow> Inr ((wa, cancel wa k), s1\<lparr>synced := mp\<rparr>))
         else Inr ((wa, cancel wa k), s1\<lparr>unsynced := List.insert wa (unsynced s1)\<rparr>))"

subsection \<open>Fan-out\<close>

text \<open>\<open>strings.HasPrefix\<close> of the Go library.\<close>

definition HasPrefix :: "string \<Rightarrow> string \<Rightarrow> bool" where
  "HasPrefix s p \<longleftrightarrow> length p \<le> length s \<and> take (length p) s = p"

fun matchPrefix :: "string \<Rightarrow> string list \<Rightarrow> bool" where
  "matchPrefix key' [] = False"
| "matchPrefix key' (p # prefixes) =
     (if HasPrefix key' p then True else matchPrefix key' prefixes)"

text \<open>
  \<open>newWatcherToEventMap\<close>, loop by loop. The innermost loop ranges over the watchers
  \<open>wm\<close> of one bucket, for the prefix of length \<open>i\<close> of the event's key.
\<close>

fun appendToWatchers ::
  "(ptr \<Rightarrow> watcher) \<Rightarrow> Event \<Rightarrow> nat \<Rightarrow> ptr list \<Rightarrow> (ptr \<times> Event list) list \<Rightarrow>
   (ptr \<times> Event list) list" where
  "appendToWatchers h ev i [] watcherToEvents = watcherToEvents"
| "appendToWatchers h ev i (w # wm) watcherToEvents =
     (if \<not> prefix (h w) \<and> i \<noteq> length (Key (Kv ev))
      then appendToWatchers h ev i wm watcherToEvents
      else appendToWatchers h ev i wm
             (AList.update w
                ((case map_of watcherToEvents w of None \<Rightarrow> [] | Some es \<Rightarrow> es) @ [ev])
                watcherToEvents))"

text \<open>The loop \<open>for i := 0; i <= len(key); i++\<close>, as a recursion over the list of \<open>i\<close>.\<close>

fun overPrefixes ::
  "(ptr \<Rightarrow> watcher) \<Rightarrow> (string \<times> ptr list) list \<Rightarrow> Event \<Rightarrow> nat list \<Rightarrow>
   (ptr \<times> Event list) list \<Rightarrow> (ptr \<times> Event list) list" where
  "overPrefixes h sm ev [] watcherToEvents = watcherToEvents"
| "overPrefixes h sm ev (i # is) watcherToEvents =
     (case map_of sm (take i (Key (Kv ev))) of
        None \<Rightarrow> overPrefixes h sm ev is watcherToEvents
      | Some wm \<Rightarrow>
          overPrefixes h sm ev is (appendToWatchers h ev i wm watcherToEvents))"

fun overEvents ::
  "(ptr \<Rightarrow> watcher) \<Rightarrow> (string \<times> ptr list) list \<Rightarrow> Event list \<Rightarrow>
   (ptr \<times> Event list) list \<Rightarrow> (ptr \<times> Event list) list" where
  "overEvents h sm [] watcherToEvents = watcherToEvents"
| "overEvents h sm (ev # evs) watcherToEvents =
     overEvents h sm evs
       (overPrefixes h sm ev [0 ..< Suc (length (Key (Kv ev)))] watcherToEvents)"

definition newWatcherToEventMap ::
  "(ptr \<Rightarrow> watcher) \<Rightarrow> (string \<times> ptr list) list \<Rightarrow> Event list \<Rightarrow>
   (ptr \<times> Event list) list" where
  "newWatcherToEventMap h sm evs = overEvents h sm evs []"

subsection \<open>The notifier\<close>

text \<open>
  The body of the inner loop of \<open>notify\<close> for the watcher \<open>w\<close> of the bucket \<open>wm\<close> stored
  under \<open>k\<close>: \<open>delete(wm, w)\<close> removes \<open>w\<close> from that bucket and leaves the bucket in the map.
\<close>

definition notifyWatcher ::
  "int \<Rightarrow> (ptr \<times> Event list) list \<Rightarrow> string \<Rightarrow> ptr \<Rightarrow> watchableStore \<Rightarrow> watchableStore" where
  "notifyWatcher rev' we k w s =
     (case map_of we w of
        None \<Rightarrow> s
      | Some es \<Rightarrow>
          (case trySend (ch (heap s w))
                  \<lparr>WatchID = id_w (heap s w), Events = es, Revision = Rev (store s)\<rparr> s of
             Some s' \<Rightarrow> s'
           | None \<Rightarrow>
               s\<lparr>heap := (heap s)(w := (heap s w)\<lparr>cur := rev'\<rparr>),
                 unsynced := List.insert w (unsynced s),
                 synced := AList.map_entry k (removeAll w) (synced s)\<rparr>))"

fun notifyBucket ::
  "int \<Rightarrow> (ptr \<times> Event list) list \<Rightarrow> string \<Rightarrow> ptr list \<Rightarrow> watchableStore \<Rightarrow> watchableStore" where
  "notifyBucket rev' we k [] s = s"
| "notifyBucket rev' we k (w # wm) s = notifyBucket rev' we k wm (notifyWatcher rev' we k w s)"

fun notifyBuckets ::
  "int \<Rightarrow> (ptr \<times> Event list) list \<Rightarrow> (string \<times> ptr list) list \<Rightarrow> watchableStore \<Rightarrow>
   watchableStore" where
  "notifyBuckets rev' we [] s = s"
| "notifyBuckets rev' we ((k, wm) # sm) s = notifyBuckets rev' we sm (notifyBucket rev' we k wm s)"

definition notify :: "int \<Rightarrow> Event list \<Rightarrow> watchableStore \<Rightarrow> watchableStore" where
  "notify rev' evs s =
     (let we = newWatcherToEventMap (heap s) (synced s) evs
      in notifyBuckets rev' we (synced s) s)"

definition handle :: "int \<Rightarrow> Event list \<Rightarrow> watchableStore \<Rightarrow> watchableStore" where
  "handle rev' evs s = notify rev' evs s"

subsection \<open>The facade\<close>

text \<open>
  The operations of the inner store are parameters: \<open>store_Put\<close> stands for
  \<open>s.store.Put\<close>, and so on. Each returns its results and the store it leaves behind.
\<close>

definition Put ::
  "(string \<Rightarrow> string option \<Rightarrow> int \<Rightarrow> store \<Rightarrow> int \<times> store) \<Rightarrow>
   string \<Rightarrow> string option \<Rightarrow> int \<Rightarrow> watchableStore \<Rightarrow> error + (int \<times> watchableStore)" where
  "Put store_Put key' value lease s =
     (let (rev', st) = store_Put key' value lease (store s);
          s1 = s\<lparr>store := st\<rparr>;
          changes' = getChanges st
      in if length changes' \<noteq> 1 then Inl (Panic ''unexpected len(changes) != 1 after put'')
         else
           (let ev = \<lparr>Type = PUT, Kv = changes' ! 0\<rparr>
            in Inr (rev', handle rev' [ev] s1)))"

text \<open>
  In \<open>DeleteRange\<close> every event takes the address \<open>&change\<close> of the loop variable. The
  file predates Go 1.22, where \<open>range\<close> has one such variable for the whole loop, so when
  the events are read (in \<open>handle\<close>, after the loop) each \<open>Kv\<close> points to the value the
  variable holds last: the last change.
\<close>

definition DeleteRange ::
  "(string \<Rightarrow> string \<Rightarrow> store \<Rightarrow> (int \<times> int) \<times> store) \<Rightarrow>
   string \<Rightarrow> string \<Rightarrow> watchableStore \<Rightarrow> error + ((int \<times> int) \<times> watchableStore)" where
  "DeleteRange store_DeleteRange key' end' s =
     (let ((n, rev'), st) = store_DeleteRange key' end' (store s);
          s1 = s\<lparr>store := st\<rparr>;
          changes' = getChanges st
      in if int (length changes') \<noteq> n
         then Inl (Panic ''unexpected len(changes) != n after deleteRange'')
         else if n = 0 then Inr ((n, rev'), s1)
         else
           (let evs = map (\<lambda>change. \<lparr>Type = DELETE, Kv = last changes'\<rparr>) changes'
            in Inr ((n, rev'), handle rev' evs s1)))"

definition TxnBegin ::
  "(store \<Rightarrow> int \<times> store) \<Rightarrow> watchableStore \<Rightarrow> int \<times> watchableStore" where
  "TxnBegin store_TxnBegin s =
     (let (txnID, st) = store_TxnBegin (store s) in (txnID, s\<lparr>store := st\<rparr>))"

definition TxnEnd ::
  "(int \<Rightarrow> store \<Rightarrow> error option \<times> store) \<Rightarrow> int \<Rightarrow> watchableStore \<Rightarrow>
   error option \<times> watchableStore" where
  "TxnEnd store_TxnEnd txnID s =
     (let (err, st) = store_TxnEnd txnID (store s);
          s1 = s\<lparr>store := st\<rparr>
      in if err \<noteq> None then (err, s1)
         else
           (let changes' = getChanges st
            in if length changes' = 0 then (None, s1)
               else
                 (let evs = map (\<lambda>change.
                                   case Value change of
                                     None \<Rightarrow> \<lparr>Type = DELETE, Kv = change\<rparr>
                                   | Some _ \<Rightarrow> \<lparr>Type = PUT, Kv = change\<rparr>) changes'
                  in (None, handle (Rev st) evs s1))))"

subsection \<open>The sync pass\<close>

text \<open>
  The first loop of \<open>syncWatchers\<close> ranges over \<open>s.unsynced\<close>. Its accumulator is the
  unsynced set (the loop deletes from it), \<open>minRev\<close>, \<open>keyToUnsynced\<close> and \<open>prefixes\<close>.
\<close>

fun syncCollect ::
  "(ptr \<Rightarrow> watcher) \<Rightarrow> int \<Rightarrow> int \<Rightarrow> ptr list \<Rightarrow>
   ptr list \<times> int \<times> (string \<times> ptr list) list \<times> string list \<Rightarrow>
   error + (ptr list \<times> int \<times> (string \<times> ptr list) list \<times> string list)" where
  "syncCollect h curRev compactionRev [] acc = Inr acc"
| "syncCollect h curRev compactionRev (w # ws) (uns, minRev, keyToUnsynced, prefixes) =
     (let k = key (h w)
      in if cur (h w) > curRev
         then Inl (Panic ''watcher current revision should not exceed current revision'')
         else if cur (h w) < compactionRev
         then syncCollect h curRev compactionRev ws
                (removeAll w uns, minRev, keyToUnsynced, prefixes)
         else
           (let minRev' = (if minRev \<ge> cur (h w) then cur (h w) else minRev);
                keyToUnsynced' = (case map_of keyToUnsynced k of
                                    None \<Rightarrow> AList.update k [] keyToUnsynced
                                  | Some _ \<Rightarrow> keyToUnsynced);
                keyToUnsynced'' = AList.map_entry k (List.insert w) keyToUnsynced';
                prefixes' = (if prefix (h w) then List.insert k prefixes else prefixes)
            in syncCollect h curRev compactionRev ws
                 (uns, minRev', keyToUnsynced'', prefixes')))"

text \<open>The second loop turns the scanned records into the relevant events.\<close>

fun syncEvents ::
  "(string \<times> ptr list) list \<Rightarrow> string list \<Rightarrow> (revKey \<times> KeyValue option) list \<Rightarrow>
   Event list \<Rightarrow> error + Event list" where
  "syncEvents keyToUnsynced prefixes [] evs = Inr evs"
| "syncEvents keyToUnsynced prefixes ((ki, v) # kvs) evs =
     (case v of
        None \<Rightarrow> Inl (Panic ''storage: cannot unmarshal event'')
      | Some kv \<Rightarrow>
          (let k = Key kv
           in if map_of keyToUnsynced k = None \<and> \<not> matchPrefix k prefixes
              then syncEvents keyToUnsynced prefixes kvs evs
              else syncEvents keyToUnsynced prefixes kvs
                     (evs @ [\<lparr>Type = (if isTombstone ki then DELETE else PUT), Kv = kv\<rparr>])))"

text \<open>The body of the third loop, for one entry \<open>(w, es)\<close> of the watcher-to-events map.\<close>

definition syncWatcher :: "ptr \<Rightarrow> Event list \<Rightarrow> watchableStore \<Rightarrow> error + watchableStore" where
  "syncWatcher w es s =
     (case trySend (ch (heap s w))
             \<lparr>WatchID = id_w (heap s w), Events = es, Revision = currentRev (store s)\<rparr> s of
        None \<Rightarrow> Inr s
      | Some s' \<Rightarrow>
          (let k = key (heap s' w)
           in case unsafeAddWatcher (synced s') k w of
                Inl err \<Rightarrow> Inl (Panic ''error unsafeAddWatcher'')
              | Inr mp \<Rightarrow> Inr (s'\<lparr>synced := mp, unsynced := removeAll w (unsynced s')\<rparr>)))"

fun syncSend :: "(ptr \<times> Event list) list \<Rightarrow> watchableStore \<Rightarrow> error + watchableStore" where
  "syncSend [] s = Inr s"
| "syncSend ((w, es) # wes) s =
     (case syncWatcher w es s of Inl err \<Rightarrow> Inl err | Inr s' \<Rightarrow> syncSend wes s')"

text \<open>
  \<open>syncScan\<close> is \<open>syncWatchers\<close> up to the third loop: it returns the map that loop
  ranges over and the state with the compacted watchers removed.
\<close>

definition syncScan ::
  "watchableStore \<Rightarrow> error + ((ptr \<times> Event list) list \<times> watchableStore)" where
  "syncScan s =
     (let curRev = currentRev (store s);
          compactionRev = compactMainRev (store s)
      in case syncCollect (heap s) curRev compactionRev (unsynced s)
                (unsynced s, MaxInt64, [], []) of
           Inl err \<Rightarrow> Inl err
         | Inr (uns, minRev, keyToUnsynced, prefixes) \<Rightarrow>
             (case syncEvents keyToUnsynced prefixes
                     (UnsafeRange (store s) minRev (curRev + 1)) [] of
                Inl err \<Rightarrow> Inl err
              | Inr evs \<Rightarrow>
                  Inr (newWatcherToEventMap (heap s) keyToUnsynced evs,
                       s\<lparr>unsynced := uns\<rparr>)))"

definition syncWatchers :: "watchableStore \<Rightarrow> error + watchableStore" where
  "syncWatchers s =
     (if length (unsynced s) = 0 then Inr s
      else case syncScan s of
             Inl err \<Rightarrow> Inl err
           | Inr (watcherToEvents, s1) \<Rightarrow> syncSend watcherToEvents s1)"

section \<open>Properties\<close>

subsection \<open>Matching and registries\<close>

text \<open>
  The matching rule in the words of the spec: a watcher matches an event when its key
  equals the event's key, or when it watches a prefix and its key is a byte prefix of
  the event's key.
\<close>

definition matches :: "watcher \<Rightarrow> Event \<Rightarrow> bool" where
  "matches w e \<longleftrightarrow> key w = Key (Kv e) \<or> (prefix w \<and> HasPrefix (Key (Kv e)) (key w))"

text \<open>
  A registry (the \<open>synced\<close> map, or the \<open>keyToUnsynced\<close> map of a sync pass) is well
  formed when every bucket is a set and holds its watchers under their own key, as
  \<open>unsafeAddWatcher\<close> and the first loop of \<open>syncWatchers\<close> store them.
\<close>

definition wf_registry :: "(ptr \<Rightarrow> watcher) \<Rightarrow> (string \<times> ptr list) list \<Rightarrow> bool" where
  "wf_registry h sm \<longleftrightarrow>
     (\<forall>k v. map_of sm k = Some v \<longrightarrow> distinct v \<and> (\<forall>w \<in> set v. key (h w) = k))"

text \<open>
  A watcher is registered in a registry when the bucket of its own key holds it.
\<close>

definition registered :: "(ptr \<Rightarrow> watcher) \<Rightarrow> (string \<times> ptr list) list \<Rightarrow> ptr \<Rightarrow> bool" where
  "registered h sm w \<longleftrightarrow> (\<exists>v. map_of sm (key (h w)) = Some v \<and> w \<in> set v)"

text \<open>
  The watchers stored under a key (none when the key is absent), and the watchers of
  all buckets of the synced map.
\<close>

definition bucket :: "(string \<times> ptr list) list \<Rightarrow> string \<Rightarrow> ptr list" where
  "bucket sm k = (case map_of sm k of None \<Rightarrow> [] | Some wm \<Rightarrow> wm)"

definition synced_ptrs :: "watchableStore \<Rightarrow> ptr set" where
  "synced_ptrs s = set (concat (map snd (synced s)))"

subsection \<open>The invariant\<close>

text \<open>
  The invariant of the registry. Watchers are allocated by \<open>watch\<close>, at the addresses
  below \<open>nextp\<close>. The keys of the synced map are distinct and both partitions are sets;
  a bucket holds allocated watchers under their own key, and none of them is in the
  unsynced set.
\<close>

definition allocated :: "watchableStore \<Rightarrow> ptr \<Rightarrow> bool" where
  "allocated s w \<longleftrightarrow> nil < w \<and> w < nextp s"

definition invar :: "watchableStore \<Rightarrow> bool" where
  "invar s \<longleftrightarrow>
     distinct (map fst (synced s)) \<and> distinct (unsynced s) \<and> nil < nextp s \<and>
     (\<forall>w \<in> set (unsynced s). allocated s w) \<and>
     (\<forall>k wm. map_of (synced s) k = Some wm \<longrightarrow>
        distinct wm \<and>
        (\<forall>w \<in> set wm. key (heap s w) = k \<and> allocated s w \<and> w \<notin> set (unsynced s)))"

subsection \<open>Reachable states\<close>

text \<open>
  Go leaves the order in which \<open>range\<close> visits a map unspecified. Two registries are the
  same maps when they hold the same keys and, under each key, the same set of watchers.
\<close>

definition reordered :: "(string \<times> ptr list) list \<Rightarrow> (string \<times> ptr list) list \<Rightarrow> bool" where
  "reordered sm sm' \<longleftrightarrow>
     distinct (map fst sm') \<and>
     (\<forall>k. (map_of sm' k = None \<longleftrightarrow> map_of sm k = None) \<and>
          set (bucket sm' k) = set (bucket sm k) \<and> distinct (bucket sm' k))"

definition same_maps :: "watchableStore \<Rightarrow> watchableStore \<Rightarrow> bool" where
  "same_maps s s' \<longleftrightarrow>
     s' = s\<lparr>unsynced := unsynced s', synced := synced s'\<rparr> \<and>
     distinct (unsynced s') \<and> set (unsynced s') = set (unsynced s) \<and>
     reordered (synced s) (synced s')"

text \<open>
  The states of a run: the store is created, channels are made, watchers are registered
  and cancelled (a cancel closure exists for every allocated watcher, with the key it was
  created with), the facade's mutations and the sync pass run, readers drain channels and
  the inner store changes under its own operations. The last loop of a sync pass may
  visit the watcher-to-events map in any order.
\<close>

inductive reachable :: "watchableStore \<Rightarrow> bool" where
  init: "reachable (newWatchableStore st)"
| chan: "reachable s \<Longrightarrow> reachable (snd (makeChan n s))"
| watch: "reachable s \<Longrightarrow> watch key' prefix' startRev id' ch' s = Inr (r, s') \<Longrightarrow> reachable s'"
| cancel: "reachable s \<Longrightarrow> allocated s wa \<Longrightarrow> reachable (cancel wa (key (heap s wa)) s)"
| Put: "reachable s \<Longrightarrow> Put store_Put key' val lease s = Inr (rv, s') \<Longrightarrow> reachable s'"
| DeleteRange:
    "reachable s \<Longrightarrow> DeleteRange store_DeleteRange key' end' s = Inr (nr, s') \<Longrightarrow> reachable s'"
| TxnBegin: "reachable s \<Longrightarrow> reachable (snd (TxnBegin store_TxnBegin s))"
| TxnEnd: "reachable s \<Longrightarrow> reachable (snd (TxnEnd store_TxnEnd txnID s))"
| inner: "reachable s \<Longrightarrow> reachable (s\<lparr>store := st\<rparr>)"
| sync: "reachable s \<Longrightarrow> syncWatchers s = Inr s' \<Longrightarrow> reachable s'"
| sync_order:
    "reachable s \<Longrightarrow> unsynced s \<noteq> [] \<Longrightarrow> syncScan s = Inr (w2e, s1) \<Longrightarrow>
     set w2e' = set w2e \<Longrightarrow> distinct (map fst w2e') \<Longrightarrow> syncSend w2e' s1 = Inr s' \<Longrightarrow>
     reachable s'"
| recv: "reachable s \<Longrightarrow> reachable (recv c s)"
| reorder: "reachable s \<Longrightarrow> same_maps s s' \<Longrightarrow> reachable s'"

subsection \<open>The notifier\<close>

text \<open>
  The watchers that the two nested loops of \<open>notify\<close> visit, in order, each with the key
  of its bucket; and the loops as one pass over that list.
\<close>

definition visits :: "(string \<times> ptr list) list \<Rightarrow> (string \<times> ptr) list" where
  "visits sm = concat (map (\<lambda>(k, wm). map (Pair k) wm) sm)"

definition notifySteps ::
  "int \<Rightarrow> (ptr \<times> Event list) list \<Rightarrow> (string \<times> ptr) list \<Rightarrow> watchableStore \<Rightarrow> watchableStore" where
  "notifySteps rev' we vs s = fold (\<lambda>(k, w). notifyWatcher rev' we k w) vs s"

text \<open>The responses that a channel holds in \<open>s'\<close> beyond those it held in \<open>s\<close>.\<close>

definition sent :: "watchableStore \<Rightarrow> watchableStore \<Rightarrow> chan \<Rightarrow> WatchResponse list" where
  "sent s s' c = drop (length (chans s c)) (chans s' c)"

text \<open>The response that \<open>notify\<close> sends to a watcher for the events \<open>es\<close>.\<close>

definition response :: "watcher \<Rightarrow> Event list \<Rightarrow> int \<Rightarrow> WatchResponse" where
  "response w es rv = \<lparr>WatchID = id_w w, Events = es, Revision = rv\<rparr>"

text \<open>
  \<open>sent_by h we rv ws c r\<close>: the response \<open>r\<close> is the one that \<open>notify\<close> sends on the
  channel \<open>c\<close> to a watcher of \<open>ws\<close>.
\<close>

definition sent_by ::
  "(ptr \<Rightarrow> watcher) \<Rightarrow> (ptr \<times> Event list) list \<Rightarrow> int \<Rightarrow> ptr set \<Rightarrow> chan \<Rightarrow>
   WatchResponse \<Rightarrow> bool" where
  "sent_by h we rv ws c r \<longleftrightarrow>
     (\<exists>w es. w \<in> ws \<and> ch (h w) = c \<and> map_of we w = Some es \<and> r = response (h w) es rv)"

text \<open>
  What the pass does to one watcher \<open>w\<close> that it visits once, under the key \<open>k\<close> of its
  only bucket, and for which the fan-out map holds the events \<open>es\<close>.
\<close>

definition delivered_to ::
  "watchableStore \<Rightarrow> watchableStore \<Rightarrow> (ptr \<times> Event list) list \<Rightarrow> ptr set \<Rightarrow> ptr \<Rightarrow>
   Event list \<Rightarrow> bool" where
  "delivered_to s s' we ws w es \<longleftrightarrow>
     heap s' w = heap s w \<and>
     (w \<in> set (unsynced s') \<longleftrightarrow> w \<in> set (unsynced s)) \<and>
     (\<forall>k'. w \<in> set (bucket (synced s') k') \<longleftrightarrow> w \<in> set (bucket (synced s) k')) \<and>
     (\<exists>before after.
        sent s s' (ch (heap s w)) =
          before @ response (heap s w) es (Rev (store s)) # after \<and>
        (\<forall>x \<in> set before \<union> set after.
           sent_by (heap s) we (Rev (store s)) (ws - {w}) (ch (heap s w)) x))"

definition demoted_at ::
  "int \<Rightarrow> watchableStore \<Rightarrow> watchableStore \<Rightarrow> (ptr \<times> Event list) list \<Rightarrow> ptr set \<Rightarrow> ptr \<Rightarrow>
   bool" where
  "demoted_at rev' s s' we ws w \<longleftrightarrow>
     heap s' w = (heap s w)\<lparr>cur := rev'\<rparr> \<and>
     w \<in> set (unsynced s') \<and>
     (\<forall>k'. w \<notin> set (bucket (synced s') k')) \<and>
     (\<forall>x \<in> set (sent s s' (ch (heap s w))).
        sent_by (heap s) we (Rev (store s)) (ws - {w}) (ch (heap s w)) x)"

text \<open>
  \<open>unique_id s w\<close>: no other synced watcher that sends on the channel of \<open>w\<close> has the
  identifier of \<open>w\<close> (a stream gives its watchers distinct identifiers).
\<close>

definition unique_id :: "watchableStore \<Rightarrow> ptr \<Rightarrow> bool" where
  "unique_id s w \<longleftrightarrow>
     (\<forall>w' \<in> synced_ptrs s.
        w' \<noteq> w \<and> ch (heap s w') = ch (heap s w) \<longrightarrow> id_w (heap s w') \<noteq> id_w (heap s w))"

text \<open>The event that \<open>TxnEnd\<close> makes of one change.\<close>

definition txnEvent :: "KeyValue \<Rightarrow> Event" where
  "txnEvent change =
     (case Value change of
        None \<Rightarrow> \<lparr>Type = DELETE, Kv = change\<rparr>
      | Some _ \<Rightarrow> \<lparr>Type = PUT, Kv = change\<rparr>)"

text \<open>
  \<open>mutation s r E s1 s'\<close>: a mutation of the facade runs in the state \<open>s\<close>; the inner
  store commits at the revision \<open>r\<close>, which leaves the state \<open>s1\<close>; the facade calls the
  notifier with the non-empty event list \<open>E\<close> and ends in \<open>s'\<close>.
\<close>

inductive mutation ::
  "watchableStore \<Rightarrow> int \<Rightarrow> Event list \<Rightarrow> watchableStore \<Rightarrow> watchableStore \<Rightarrow> bool" where
  put:
    "store_Put key' val lease (store s) = (r, st) \<Longrightarrow>
     Put store_Put key' val lease s = Inr (r, s') \<Longrightarrow>
     mutation s r [\<lparr>Type = PUT, Kv = getChanges st ! 0\<rparr>] (s\<lparr>store := st\<rparr>) s'"
| deleteRange:
    "store_DeleteRange key' end' (store s) = ((n, r), st) \<Longrightarrow> n \<noteq> 0 \<Longrightarrow>
     DeleteRange store_DeleteRange key' end' s = Inr ((n, r), s') \<Longrightarrow>
     mutation s r (map (\<lambda>change. \<lparr>Type = DELETE, Kv = last (getChanges st)\<rparr>) (getChanges st))
       (s\<lparr>store := st\<rparr>) s'"
| txnEnd:
    "store_TxnEnd txnID (store s) = (None, st) \<Longrightarrow> getChanges st \<noteq> [] \<Longrightarrow>
     TxnEnd store_TxnEnd txnID s = (None, s') \<Longrightarrow>
     mutation s (Rev st) (map txnEvent (getChanges st)) (s\<lparr>store := st\<rparr>) s'"

subsection \<open>The sync pass in closed form\<close>

text \<open>One step of the first loop of the sync pass, for a watcher that is kept.\<close>

definition addUnsynced ::
  "string \<Rightarrow> ptr \<Rightarrow> (string \<times> ptr list) list \<Rightarrow> (string \<times> ptr list) list" where
  "addUnsynced k w m =
     AList.map_entry k (List.insert w)
       (case map_of m k of None \<Rightarrow> AList.update k [] m | Some _ \<Rightarrow> m)"

definition kept :: "(ptr \<Rightarrow> watcher) \<Rightarrow> int \<Rightarrow> ptr \<Rightarrow> bool" where
  "kept h compactionRev w \<longleftrightarrow> \<not> cur (h w) < compactionRev"

text \<open>The event that the second loop of the sync pass makes of one scanned record.\<close>

definition toEvent :: "revKey \<Rightarrow> KeyValue \<Rightarrow> Event" where
  "toEvent ki kv = \<lparr>Type = (if isTombstone ki then DELETE else PUT), Kv = kv\<rparr>"

definition scannedEvents :: "(revKey \<times> KeyValue option) list \<Rightarrow> Event list" where
  "scannedEvents recs =
     concat (map (\<lambda>(ki, v). case v of None \<Rightarrow> [] | Some kv \<Rightarrow> [toEvent ki kv]) recs)"

definition relevant :: "(string \<times> ptr list) list \<Rightarrow> string list \<Rightarrow> Event \<Rightarrow> bool" where
  "relevant m pfx e \<longleftrightarrow> map_of m (Key (Kv e)) \<noteq> None \<or> matchPrefix (Key (Kv e)) pfx"

subsection \<open>Auxiliary notions for the fan-out map\<close>

text \<open>
  The events listed for a watcher, the property that no watcher is listed with an
  empty list, and the prefix lengths at which an event reaches a watcher.
\<close>

definition eventsOf :: "(ptr \<times> Event list) list \<Rightarrow> ptr \<Rightarrow> Event list" where
  "eventsOf m w = (case map_of m w of None \<Rightarrow> [] | Some es \<Rightarrow> es)"

definition nonempty_lists :: "(ptr \<times> Event list) list \<Rightarrow> bool" where
  "nonempty_lists m \<longleftrightarrow> (\<forall>w es. map_of m w = Some es \<longrightarrow> es \<noteq> [])"

definition hit :: "(ptr \<Rightarrow> watcher) \<Rightarrow> (string \<times> ptr list) list \<Rightarrow> Event \<Rightarrow> ptr \<Rightarrow> nat \<Rightarrow> bool" where
  "hit h sm ev w i \<longleftrightarrow>
     (\<exists>wm. map_of sm (take i (Key (Kv ev))) = Some wm \<and> w \<in> set wm) \<and>
     (prefix (h w) \<or> i = length (Key (Kv ev)))"

subsection \<open>Example states\<close>

text \<open>
  A store at revision 1, an inner \<open>Put\<close> and an inner \<open>TxnEnd\<close> that commit at the next
  revision, and the states of a short run: a channel of capacity one, a watcher on
  \<open>k\<close> registered from now on, one and two \<open>Put\<close>s on \<open>k\<close>, the sync pass after the
  reader has drained the channel; a watcher registered at the next revision; a watcher
  registered below the compaction revision.
\<close>

definition ex_store :: store where
  "ex_store = \<lparr>currentRev = 1, compactMainRev = 0, changes = [], keyBucket = []\<rparr>"

definition ex_kv :: "string \<Rightarrow> int \<Rightarrow> KeyValue" where
  "ex_kv k r = \<lparr>Key = k, CreateRevision = r, ModRevision = r, Version = 1, Value = Some ''v'',
               Lease = 0\<rparr>"

definition ex_put :: "string \<Rightarrow> string option \<Rightarrow> int \<Rightarrow> store \<Rightarrow> int \<times> store" where
  "ex_put k v l st =
     (currentRev st + 1,
      st\<lparr>currentRev := currentRev st + 1, changes := [ex_kv k (currentRev st + 1)],
         keyBucket := keyBucket st @
           [(\<lparr>main = currentRev st + 1, sub = 0, tombstone = False\<rparr>,
             Some (ex_kv k (currentRev st + 1)))]\<rparr>)"


definition ex0 :: watchableStore where
  "ex0 = snd (makeChan 1 (newWatchableStore ex_store))"

definition ex_synced :: watchableStore where
  "ex_synced =
     ex0\<lparr>heap := (heap ex0)(Suc 0 := \<lparr>key = ''k'', prefix = False, cur = 0, id_w = 7, ch = 0\<rparr>),
         nextp := Suc (Suc 0), synced := [(''k'', [Suc 0])]\<rparr>"

definition ex_once :: watchableStore where
  "ex_once = snd (projr (Put ex_put ''k'' None 0 ex_synced))"

definition ex_twice :: watchableStore where
  "ex_twice = snd (projr (Put ex_put ''k'' None 0 ex_once))"

definition ex_promoted :: watchableStore where
  "ex_promoted = projr (syncWatchers (recv 0 ex_twice))"

definition ex_future :: watchableStore where
  "ex_future = snd (projr (watch ''k'' False (currentRev (store ex0) + 1) 7 0 ex0))"

definition ex_compacted :: watchableStore where
  "ex_compacted =
     snd (projr (watch ''k'' False 5 7 0
                   (ex0\<lparr>store := \<lparr>currentRev = 12, compactMainRev = 10, changes = [],
                                   keyBucket = []\<rparr>\<rparr>)))"

text \<open>
  An inner \<open>DeleteRange\<close> that deletes the keys \<open>a\<close> and \<open>b\<close> at the next revision (the
  change of a deleted key holds the key only), a run that registers a watcher on \<open>a\<close>
  and a watcher on \<open>b\<close>, each from now on and with a channel of its own, and then
  deletes the range; and a \<open>Put\<close> on another key after the sync pass of the run above.
\<close>

definition ex_deleted_kv :: "string \<Rightarrow> KeyValue" where
  "ex_deleted_kv k = \<lparr>Key = k, CreateRevision = 0, ModRevision = 0, Version = 0, Value = None,
                      Lease = 0\<rparr>"

definition ex_delete_range :: "string \<Rightarrow> string \<Rightarrow> store \<Rightarrow> (int \<times> int) \<times> store" where
  "ex_delete_range k e st =
     ((2, currentRev st + 1),
      st\<lparr>currentRev := currentRev st + 1,
         changes := [ex_deleted_kv ''a'', ex_deleted_kv ''b''],
         keyBucket := keyBucket st @
           [(\<lparr>main = currentRev st + 1, sub = 0, tombstone = True\<rparr>, Some (ex_deleted_kv ''a'')),
            (\<lparr>main = currentRev st + 1, sub = 1, tombstone = True\<rparr>, Some (ex_deleted_kv ''b''))]\<rparr>)"

definition ex_a :: watchableStore where
  "ex_a = snd (projr (watch ''a'' False 0 7 0 (snd (makeChan 1 ex0))))"

definition ex_ab :: watchableStore where
  "ex_ab = snd (projr (watch ''b'' False 0 8 1 ex_a))"

definition ex_deleted :: watchableStore where
  "ex_deleted = snd (projr (DeleteRange ex_delete_range ''a'' ''c'' ex_ab))"

definition ex_behind :: watchableStore where
  "ex_behind = snd (projr (Put ex_put ''z'' None 0 ex_promoted))"

section \<open>Proofs\<close>

subsection \<open>The fan-out map\<close>

lemma map_of_eventsOf:
  "nonempty_lists m \<Longrightarrow> map_of m w = (if eventsOf m w = [] then None else Some (eventsOf m w))"
  by (auto simp: nonempty_lists_def eventsOf_def split: option.splits)

lemma update_nonempty_lists:
  "nonempty_lists m \<Longrightarrow> es \<noteq> [] \<Longrightarrow> nonempty_lists (AList.update w es m)"
  by (simp add: nonempty_lists_def update_conv')

lemma appendToWatchers_nonempty:
  "nonempty_lists m \<Longrightarrow> nonempty_lists (appendToWatchers h ev i wm m)"
  by (induction wm arbitrary: m) (simp_all add: update_nonempty_lists)

lemma appendToWatchers_eventsOf:
  "distinct wm \<Longrightarrow>
   eventsOf (appendToWatchers h ev i wm m) w =
     eventsOf m w @ (if w \<in> set wm \<and> (prefix (h w) \<or> i = length (Key (Kv ev))) then [ev] else [])"
proof (induction wm arbitrary: m)
  case Nil
  then show ?case by simp
next
  case (Cons a wm)
  then show ?case
    by (auto simp: eventsOf_def update_conv' split: option.splits)
qed

lemma overPrefixes_nonempty:
  "nonempty_lists m \<Longrightarrow> nonempty_lists (overPrefixes h sm ev is m)"
  by (induction "is" arbitrary: m) (auto simp: appendToWatchers_nonempty split: option.splits)

lemma overEvents_nonempty:
  "nonempty_lists m \<Longrightarrow> nonempty_lists (overEvents h sm evs m)"
  by (induction evs arbitrary: m) (auto simp: overPrefixes_nonempty)

lemma overPrefixes_eventsOf:
  assumes "wf_registry h sm" "distinct is" "\<forall>i \<in> set is. i \<le> length (Key (Kv ev))"
  shows "eventsOf (overPrefixes h sm ev is m) w =
           eventsOf m w @ (if \<exists>i \<in> set is. hit h sm ev w i then [ev] else [])"
  using assms(2,3)
proof (induction "is" arbitrary: m)
  case Nil
  then show ?case by simp
next
  case (Cons i "is")
  have once: "hit h sm ev w i \<Longrightarrow> j \<in> set is \<Longrightarrow> \<not> hit h sm ev w j" for j
  proof
    assume a: "hit h sm ev w i" "j \<in> set is" "hit h sm ev w j"
    from a(1) assms(1) have "key (h w) = take i (Key (Kv ev))"
      by (auto simp: hit_def wf_registry_def)
    moreover from a(3) assms(1) have "key (h w) = take j (Key (Kv ev))"
      by (auto simp: hit_def wf_registry_def)
    ultimately have "length (take i (Key (Kv ev))) = length (take j (Key (Kv ev)))" by simp
    with Cons.prems a(2) show False by auto
  qed
  show ?case
  proof (cases "map_of sm (take i (Key (Kv ev)))")
    case None
    then have "\<not> hit h sm ev w i" by (simp add: hit_def)
    with None Cons show ?thesis by simp
  next
    case (Some wm)
    with assms(1) have d: "distinct wm" by (auto simp: wf_registry_def)
    have h: "hit h sm ev w i \<longleftrightarrow> w \<in> set wm \<and> (prefix (h w) \<or> i = length (Key (Kv ev)))"
      using Some by (simp add: hit_def)
    show ?thesis
      using Some Cons once h by (auto simp: appendToWatchers_eventsOf [OF d])
  qed
qed

lemma hit_matches:
  assumes "wf_registry h sm"
  shows "(\<exists>i \<in> set [0 ..< Suc (length (Key (Kv ev)))]. hit h sm ev w i) \<longleftrightarrow>
         registered h sm w \<and> matches (h w) ev"
proof
  assume "\<exists>i \<in> set [0 ..< Suc (length (Key (Kv ev)))]. hit h sm ev w i"
  then obtain i where i0: "i \<in> set [0 ..< Suc (length (Key (Kv ev)))]" and hi: "hit h sm ev w i"
    by blast
  from i0 have i: "i \<le> length (Key (Kv ev))" by auto
  from hi obtain wm where wm: "map_of sm (take i (Key (Kv ev))) = Some wm" "w \<in> set wm"
    and p: "prefix (h w) \<or> i = length (Key (Kv ev))"
    unfolding hit_def by blast
  from wm assms have k: "key (h w) = take i (Key (Kv ev))" by (auto simp: wf_registry_def)
  with wm have "registered h sm w" by (auto simp: registered_def)
  moreover from k i p have "matches (h w) ev"
    by (auto simp: matches_def HasPrefix_def min_def)
  ultimately show "registered h sm w \<and> matches (h w) ev" ..
next
  assume a: "registered h sm w \<and> matches (h w) ev"
  then obtain wm where wm: "map_of sm (key (h w)) = Some wm" "w \<in> set wm"
    by (auto simp: registered_def)
  let ?i = "length (key (h w))"
  from a have hp: "HasPrefix (Key (Kv ev)) (key (h w))"
    and p: "prefix (h w) \<or> key (h w) = Key (Kv ev)"
    by (auto simp: matches_def HasPrefix_def)
  from hp have "?i \<le> length (Key (Kv ev))" "take ?i (Key (Kv ev)) = key (h w)"
    by (auto simp: HasPrefix_def)
  with wm p have hi: "hit h sm ev w ?i" by (auto simp: hit_def)
  from \<open>?i \<le> length (Key (Kv ev))\<close> have "?i \<in> set [0 ..< Suc (length (Key (Kv ev)))]"
    by auto
  with hi show "\<exists>i \<in> set [0 ..< Suc (length (Key (Kv ev)))]. hit h sm ev w i"
    by blast
qed

lemma overEvents_eventsOf:
  assumes "wf_registry h sm"
  shows "eventsOf (overEvents h sm evs m) w =
           eventsOf m w @ (if registered h sm w then filter (matches (h w)) evs else [])"
proof (induction evs arbitrary: m)
  case Nil
  then show ?case by simp
next
  case (Cons ev evs)
  have "eventsOf (overPrefixes h sm ev [0 ..< Suc (length (Key (Kv ev)))] m) w =
          eventsOf m w @ (if registered h sm w \<and> matches (h w) ev then [ev] else [])"
    using overPrefixes_eventsOf [OF assms, of "[0 ..< Suc (length (Key (Kv ev)))]" ev m w]
      hit_matches [OF assms, of ev w]
    by auto
  with Cons show ?case by auto
qed

lemma newWatcherToEventMap_map_of:
  assumes "wf_registry h sm"
  shows "map_of (newWatcherToEventMap h sm evs) w =
           (if registered h sm w \<and> (\<exists>e \<in> set evs. matches (h w) e)
            then Some (filter (matches (h w)) evs) else None)"
proof -
  have ne: "nonempty_lists (newWatcherToEventMap h sm evs)"
    unfolding newWatcherToEventMap_def by (rule overEvents_nonempty) (simp add: nonempty_lists_def)
  have ev: "eventsOf (newWatcherToEventMap h sm evs) w =
              (if registered h sm w then filter (matches (h w)) evs else [])"
    unfolding newWatcherToEventMap_def using overEvents_eventsOf [OF assms, of evs "[]" w]
    by (simp add: eventsOf_def)
  show ?thesis
    unfolding map_of_eventsOf [OF ne] ev by (auto simp: filter_empty_conv)
qed

subsection \<open>The invariant is preserved\<close>

lemma invarI:
  assumes "distinct (map fst (synced s))" "distinct (unsynced s)" "nil < nextp s"
    "\<And>w. w \<in> set (unsynced s) \<Longrightarrow> allocated s w"
    "\<And>k wm. map_of (synced s) k = Some wm \<Longrightarrow> distinct wm"
    "\<And>k wm w. map_of (synced s) k = Some wm \<Longrightarrow> w \<in> set wm \<Longrightarrow>
       key (heap s w) = k \<and> allocated s w \<and> w \<notin> set (unsynced s)"
  shows "invar s"
  using assms unfolding invar_def by blast

lemma invar_keys: "invar s \<Longrightarrow> distinct (map fst (synced s))"
  unfolding invar_def by blast

lemma invar_unsynced: "invar s \<Longrightarrow> distinct (unsynced s)"
  unfolding invar_def by blast

lemma invar_nextp: "invar s \<Longrightarrow> nil < nextp s"
  unfolding invar_def by blast

lemma invar_unsynced_alloc: "invar s \<Longrightarrow> w \<in> set (unsynced s) \<Longrightarrow> allocated s w"
  unfolding invar_def by blast

lemma invar_bucket_distinct: "invar s \<Longrightarrow> map_of (synced s) k = Some wm \<Longrightarrow> distinct wm"
  unfolding invar_def by blast

lemma invar_bucket:
  "invar s \<Longrightarrow> map_of (synced s) k = Some wm \<Longrightarrow> w \<in> set wm \<Longrightarrow>
     key (heap s w) = k \<and> allocated s w \<and> w \<notin> set (unsynced s)"
  unfolding invar_def by blast

lemma invar_init: "invar (newWatchableStore st)"
  by (simp add: invar_def newWatchableStore_def nil_def)

lemma invar_makeChan: "invar s \<Longrightarrow> invar (snd (makeChan n s))"
  by (simp add: invar_def makeChan_def allocated_def)

lemma invar_store: "invar s \<Longrightarrow> invar (s\<lparr>store := st\<rparr>)"
  by (simp add: invar_def allocated_def)

lemma invar_chans: "invar s \<Longrightarrow> invar (s\<lparr>chans := cs\<rparr>)"
  by (simp add: invar_def allocated_def)

lemma invar_recv: "invar s \<Longrightarrow> invar (recv c s)"
  by (simp add: recv_def invar_chans)

text \<open>Removing a watcher from the unsynced set.\<close>

lemma invar_remove_unsynced:
  assumes "invar s"
  shows "invar (s\<lparr>unsynced := removeAll w (unsynced s)\<rparr>)"
proof (rule invarI)
  fix k wm w' assume "map_of (synced (s\<lparr>unsynced := removeAll w (unsynced s)\<rparr>)) k = Some wm"
    "w' \<in> set wm"
  then show "key (heap (s\<lparr>unsynced := removeAll w (unsynced s)\<rparr>) w') = k \<and>
     allocated (s\<lparr>unsynced := removeAll w (unsynced s)\<rparr>) w' \<and>
     w' \<notin> set (unsynced (s\<lparr>unsynced := removeAll w (unsynced s)\<rparr>))"
    using invar_bucket [OF assms, of k wm w'] by (simp add: allocated_def)
next
  fix w' assume "w' \<in> set (unsynced (s\<lparr>unsynced := removeAll w (unsynced s)\<rparr>))"
  then show "allocated (s\<lparr>unsynced := removeAll w (unsynced s)\<rparr>) w'"
    using invar_unsynced_alloc [OF assms, of w'] by (simp add: allocated_def)
qed (use assms in \<open>simp_all add: invar_keys invar_unsynced invar_nextp distinct_removeAll invar_bucket_distinct\<close>)

text \<open>Replacing the bucket of a key by a part of it, or dropping the key.\<close>

lemma invar_shrink_bucket:
  assumes "invar s" "map_of (synced s) k = Some v" "set v' \<subseteq> set v" "distinct v'"
  shows "invar (s\<lparr>synced := AList.update k v' (synced s)\<rparr>)"
proof (rule invarI)
  fix k' wm assume a: "map_of (synced (s\<lparr>synced := AList.update k v' (synced s)\<rparr>)) k' = Some wm"
  show "distinct wm"
  proof (cases "k' = k")
    case True
    with a assms(4) show ?thesis by (simp add: update_conv')
  next
    case False
    with a show ?thesis using invar_bucket_distinct [OF assms(1), of k' wm]
      by (simp add: update_conv')
  qed
  fix w assume w: "w \<in> set wm"
  show "key (heap (s\<lparr>synced := AList.update k v' (synced s)\<rparr>) w) = k' \<and>
     allocated (s\<lparr>synced := AList.update k v' (synced s)\<rparr>) w \<and>
     w \<notin> set (unsynced (s\<lparr>synced := AList.update k v' (synced s)\<rparr>))"
  proof (cases "k' = k")
    case True
    with a have "wm = v'" by (simp add: update_conv')
    with w assms(3) have "w \<in> set v" by auto
    with True show ?thesis using invar_bucket [OF assms(1,2), of w] by (simp add: allocated_def)
  next
    case False
    with a w show ?thesis using invar_bucket [OF assms(1), of k' wm w]
      by (simp add: update_conv' allocated_def)
  qed
next
  fix w assume "w \<in> set (unsynced (s\<lparr>synced := AList.update k v' (synced s)\<rparr>))"
  then show "allocated (s\<lparr>synced := AList.update k v' (synced s)\<rparr>) w"
    using invar_unsynced_alloc [OF assms(1), of w] by (simp add: allocated_def)
qed (use assms(1) in \<open>simp_all add: invar_keys invar_unsynced invar_nextp distinct_update\<close>)

lemma invar_delete_key:
  assumes "invar s"
  shows "invar (s\<lparr>synced := AList.delete k (synced s)\<rparr>)"
proof (rule invarI)
  fix k' wm assume a: "map_of (synced (s\<lparr>synced := AList.delete k (synced s)\<rparr>)) k' = Some wm"
  then have m: "map_of (synced s) k' = Some wm"
    by (simp add: delete_conv' split: if_splits)
  then show "distinct wm" by (rule invar_bucket_distinct [OF assms])
  fix w assume w: "w \<in> set wm"
  show "key (heap (s\<lparr>synced := AList.delete k (synced s)\<rparr>) w) = k' \<and>
     allocated (s\<lparr>synced := AList.delete k (synced s)\<rparr>) w \<and>
     w \<notin> set (unsynced (s\<lparr>synced := AList.delete k (synced s)\<rparr>))"
    using invar_bucket [OF assms m w] by (simp add: allocated_def)
next
  fix w assume "w \<in> set (unsynced (s\<lparr>synced := AList.delete k (synced s)\<rparr>))"
  then show "allocated (s\<lparr>synced := AList.delete k (synced s)\<rparr>) w"
    using invar_unsynced_alloc [OF assms, of w] by (simp add: allocated_def)
qed (use assms in \<open>simp_all add: invar_keys invar_unsynced invar_nextp distinct_delete\<close>)

lemma invar_cancel:
  assumes "invar s"
  shows "invar (cancel wa k s)"
proof (cases "wa \<in> set (unsynced s)")
  case True
  then have c: "cancel wa k s = s\<lparr>unsynced := removeAll wa (unsynced s)\<rparr>"
    by (simp add: cancel_def)
  show ?thesis unfolding c by (rule invar_remove_unsynced [OF assms])
next
  case False
  show ?thesis
  proof (cases "map_of (synced s) k")
    case None
    with False assms show ?thesis by (simp add: cancel_def)
  next
    case (Some v)
    show ?thesis
    proof (cases "wa \<in> set v")
      case n: False
      with False Some assms show ?thesis by (simp add: cancel_def)
    next
      case y: True
      show ?thesis
      proof (cases "removeAll wa v = []")
        case True
        with False Some y have c: "cancel wa k s = s\<lparr>synced := AList.delete k (synced s)\<rparr>"
          by (simp add: cancel_def)
        show ?thesis unfolding c by (rule invar_delete_key [OF assms])
      next
        case ne: False
        with False Some y have c:
          "cancel wa k s = s\<lparr>synced := AList.update k (removeAll wa v) (synced s)\<rparr>"
          by (simp add: cancel_def Let_def)
        show ?thesis unfolding c
          by (rule invar_shrink_bucket [OF assms Some])
            (use invar_bucket_distinct [OF assms Some] in \<open>auto simp: distinct_removeAll\<close>)
      qed
    qed
  qed
qed

lemma invar_set_bucket:
  assumes "invar s" "distinct v'"
    "\<And>w. w \<in> set v' \<Longrightarrow> key (heap s w) = k \<and> allocated s w \<and> w \<notin> set (unsynced s)"
  shows "invar (s\<lparr>synced := AList.update k v' (synced s)\<rparr>)"
proof (rule invarI)
  fix k' wm assume a: "map_of (synced (s\<lparr>synced := AList.update k v' (synced s)\<rparr>)) k' = Some wm"
  show "distinct wm"
  proof (cases "k' = k")
    case True
    with a assms(2) show ?thesis by (simp add: update_conv')
  next
    case False
    with a show ?thesis using invar_bucket_distinct [OF assms(1), of k' wm]
      by (simp add: update_conv')
  qed
  fix w assume w: "w \<in> set wm"
  show "key (heap (s\<lparr>synced := AList.update k v' (synced s)\<rparr>) w) = k' \<and>
     allocated (s\<lparr>synced := AList.update k v' (synced s)\<rparr>) w \<and>
     w \<notin> set (unsynced (s\<lparr>synced := AList.update k v' (synced s)\<rparr>))"
  proof (cases "k' = k")
    case True
    with a have "wm = v'" by (simp add: update_conv')
    with w True show ?thesis using assms(3) [of w] by (simp add: allocated_def)
  next
    case False
    with a w show ?thesis using invar_bucket [OF assms(1), of k' wm w]
      by (simp add: update_conv' allocated_def)
  qed
next
  fix w assume "w \<in> set (unsynced (s\<lparr>synced := AList.update k v' (synced s)\<rparr>))"
  then show "allocated (s\<lparr>synced := AList.update k v' (synced s)\<rparr>) w"
    using invar_unsynced_alloc [OF assms(1), of w] by (simp add: allocated_def)
qed (use assms(1) in \<open>simp_all add: invar_keys invar_unsynced invar_nextp distinct_update\<close>)

lemma invar_add_unsynced:
  assumes "invar s" "allocated s w"
    "\<And>k wm. map_of (synced s) k = Some wm \<Longrightarrow> w \<notin> set wm"
  shows "invar (s\<lparr>unsynced := List.insert w (unsynced s)\<rparr>)"
proof (rule invarI)
  fix k wm w' assume a: "map_of (synced (s\<lparr>unsynced := List.insert w (unsynced s)\<rparr>)) k = Some wm"
    "w' \<in> set wm"
  then have "w' \<noteq> w" using assms(3) [of k wm] by auto
  then show "key (heap (s\<lparr>unsynced := List.insert w (unsynced s)\<rparr>) w') = k \<and>
     allocated (s\<lparr>unsynced := List.insert w (unsynced s)\<rparr>) w' \<and>
     w' \<notin> set (unsynced (s\<lparr>unsynced := List.insert w (unsynced s)\<rparr>))"
    using invar_bucket [OF assms(1), of k wm w'] a by (simp add: allocated_def)
next
  fix w' assume "w' \<in> set (unsynced (s\<lparr>unsynced := List.insert w (unsynced s)\<rparr>))"
  then show "allocated (s\<lparr>unsynced := List.insert w (unsynced s)\<rparr>) w'"
    using invar_unsynced_alloc [OF assms(1), of w'] assms(2) by (auto simp: allocated_def)
qed (use assms(1) in \<open>simp_all add: invar_keys invar_unsynced invar_nextp invar_bucket_distinct\<close>)

lemma invar_heap:
  assumes "invar s" "\<And>w. key (h w) = key (heap s w)"
  shows "invar (s\<lparr>heap := h\<rparr>)"
proof (rule invarI)
  fix k wm w assume "map_of (synced (s\<lparr>heap := h\<rparr>)) k = Some wm" "w \<in> set wm"
  then show "key (heap (s\<lparr>heap := h\<rparr>) w) = k \<and> allocated (s\<lparr>heap := h\<rparr>) w \<and>
     w \<notin> set (unsynced (s\<lparr>heap := h\<rparr>))"
    using invar_bucket [OF assms(1), of k wm w] assms(2) by (simp add: allocated_def)
next
  fix w assume "w \<in> set (unsynced (s\<lparr>heap := h\<rparr>))"
  then show "allocated (s\<lparr>heap := h\<rparr>) w"
    using invar_unsynced_alloc [OF assms(1), of w] by (simp add: allocated_def)
qed (use assms(1) in \<open>simp_all add: invar_keys invar_unsynced invar_nextp invar_bucket_distinct\<close>)

lemma invar_alloc:
  assumes "invar s"
  shows "invar (s\<lparr>heap := (heap s)(nextp s := x), nextp := Suc (nextp s)\<rparr>)"
    (is "invar ?s1")
proof (rule invarI)
  fix k wm w assume a: "map_of (synced ?s1) k = Some wm" "w \<in> set wm"
  then show "key (heap ?s1 w) = k \<and> allocated ?s1 w \<and> w \<notin> set (unsynced ?s1)"
    using invar_bucket [OF assms, of k wm w] by (auto simp: allocated_def)
next
  fix w assume "w \<in> set (unsynced ?s1)"
  then show "allocated ?s1 w"
    using invar_unsynced_alloc [OF assms, of w] by (simp add: allocated_def)
qed (use assms in \<open>simp_all add: invar_keys invar_unsynced invar_bucket_distinct nil_def\<close>)

lemma allocated_not_unsynced:
  "invar s \<Longrightarrow> \<not> allocated s w \<Longrightarrow> w \<notin> set (unsynced s)"
  using invar_unsynced_alloc by blast

lemma allocated_not_synced:
  "invar s \<Longrightarrow> \<not> allocated s w \<Longrightarrow> map_of (synced s) k = Some wm \<Longrightarrow> w \<notin> set wm"
  using invar_bucket by blast

lemma invar_watch:
  assumes "invar s" "watch key' prefix' startRev id' ch' s = Inr (r, s')"
  shows "invar s'"
proof -
  let ?wa = "nextp s"
  let ?x = "\<lparr>key = key', prefix = prefix', cur = startRev, id_w = id', ch = ch'\<rparr>"
  let ?s1 = "s\<lparr>heap := (heap s)(?wa := ?x), nextp := Suc ?wa\<rparr>"
  have i1: "invar ?s1" by (rule invar_alloc [OF assms(1)])
  have na: "\<not> allocated s ?wa" by (simp add: allocated_def)
  have al: "allocated ?s1 ?wa" using invar_nextp [OF assms(1)] by (simp add: allocated_def)
  have fresh_u: "?wa \<notin> set (unsynced ?s1)"
    using allocated_not_unsynced [OF assms(1) na] by simp
  have fresh_b: "map_of (synced ?s1) k = Some wm \<Longrightarrow> ?wa \<notin> set wm" for k wm
    using allocated_not_synced [OF assms(1) na, of k wm] by simp
  show ?thesis
  proof (cases "startRev = 0")
    case False
    with assms(2) have s': "s' = ?s1\<lparr>unsynced := List.insert ?wa (unsynced ?s1)\<rparr>"
      by (auto simp: watch_def Let_def)
    show ?thesis unfolding s' by (rule invar_add_unsynced [OF i1 al fresh_b])
  next
    case True
    with assms(2) obtain mp where mp: "unsafeAddWatcher (synced ?s1) key' ?wa = Inr mp"
      and s': "s' = ?s1\<lparr>synced := mp\<rparr>"
      by (auto simp: watch_def Let_def split: sum.splits)
    have k: "key (heap ?s1 ?wa) = key'" by simp
    show ?thesis
    proof (cases "map_of (synced ?s1) key'")
      case None
      with mp have m: "mp = AList.update key' [?wa] (synced ?s1)"
        by (auto simp: unsafeAddWatcher_def split: if_splits)
      show ?thesis unfolding s' m
        by (rule invar_set_bucket [OF i1]) (use al fresh_u k in auto)
    next
      case (Some v)
      with mp have m: "mp = AList.update key' (v @ [?wa]) (synced ?s1)"
        by (auto simp: unsafeAddWatcher_def split: if_splits)
      have d: "distinct (v @ [?wa])"
        using invar_bucket_distinct [OF i1 Some] fresh_b [OF Some] by simp
      show ?thesis unfolding s' m
      proof (rule invar_set_bucket [OF i1 d])
        fix w assume "w \<in> set (v @ [?wa])"
        then show "key (heap ?s1 w) = key' \<and> allocated ?s1 w \<and> w \<notin> set (unsynced ?s1)"
          using invar_bucket [OF i1 Some, of w] al fresh_u k by auto
      qed
    qed
  qed
qed

subsection \<open>The notifier preserves the invariant\<close>

lemma map_entry_update:
  "AList.map_entry k f xs =
     (case map_of xs k of None \<Rightarrow> xs | Some v \<Rightarrow> AList.update k (f v) xs)"
  by (induction xs) (auto split: option.splits)

lemma notifyWatcher_None:
  "map_of we w = None \<Longrightarrow> notifyWatcher rev' we k w s = s"
  by (simp add: notifyWatcher_def)

lemma notifyWatcher_sent:
  "map_of we w = Some es \<Longrightarrow> length (chans s (ch (heap s w))) < cap s (ch (heap s w)) \<Longrightarrow>
   notifyWatcher rev' we k w s =
     s\<lparr>chans := (chans s)(ch (heap s w) := chans s (ch (heap s w)) @
          [\<lparr>WatchID = id_w (heap s w), Events = es, Revision = Rev (store s)\<rparr>])\<rparr>"
  by (simp add: notifyWatcher_def trySend_def)

lemma notifyWatcher_demoted:
  "map_of we w = Some es \<Longrightarrow> \<not> length (chans s (ch (heap s w))) < cap s (ch (heap s w)) \<Longrightarrow>
   notifyWatcher rev' we k w s =
     s\<lparr>heap := (heap s)(w := (heap s w)\<lparr>cur := rev'\<rparr>),
       unsynced := List.insert w (unsynced s),
       synced := AList.map_entry k (removeAll w) (synced s)\<rparr>"
  by (simp add: notifyWatcher_def trySend_def)

lemma notifyWatcher_cases:
  obtains (skip) "map_of we w = None" "notifyWatcher rev' we k w s = s"
  | (sent) es where "map_of we w = Some es"
      "length (chans s (ch (heap s w))) < cap s (ch (heap s w))"
      "notifyWatcher rev' we k w s =
         s\<lparr>chans := (chans s)(ch (heap s w) := chans s (ch (heap s w)) @
            [\<lparr>WatchID = id_w (heap s w), Events = es, Revision = Rev (store s)\<rparr>])\<rparr>"
  | (demoted) es where "map_of we w = Some es"
      "\<not> length (chans s (ch (heap s w))) < cap s (ch (heap s w))"
      "notifyWatcher rev' we k w s =
         s\<lparr>heap := (heap s)(w := (heap s w)\<lparr>cur := rev'\<rparr>),
           unsynced := List.insert w (unsynced s),
           synced := AList.map_entry k (removeAll w) (synced s)\<rparr>"
  using notifyWatcher_None notifyWatcher_sent notifyWatcher_demoted
  by (cases "map_of we w") blast+

lemma invar_demote:
  assumes "invar s" "allocated s w" "key (heap s w) = k"
  shows "invar (s\<lparr>heap := (heap s)(w := (heap s w)\<lparr>cur := rev'\<rparr>),
                 unsynced := List.insert w (unsynced s),
                 synced := AList.map_entry k (removeAll w) (synced s)\<rparr>)"
proof -
  let ?s1 = "s\<lparr>synced := AList.map_entry k (removeAll w) (synced s)\<rparr>"
  have i1: "invar ?s1" and out: "map_of (synced ?s1) k' = Some wm \<Longrightarrow> w \<notin> set wm" for k' wm
  proof -
    show "invar ?s1"
    proof (cases "map_of (synced s) k")
      case None
      with assms(1) show ?thesis by (simp add: map_entry_update)
    next
      case (Some v)
      have "invar (s\<lparr>synced := AList.update k (removeAll w v) (synced s)\<rparr>)"
        by (rule invar_shrink_bucket [OF assms(1) Some])
          (use invar_bucket_distinct [OF assms(1) Some] in \<open>auto simp: distinct_removeAll\<close>)
      with Some show ?thesis by (simp add: map_entry_update)
    qed
    assume a: "map_of (synced ?s1) k' = Some wm"
    show "w \<notin> set wm"
    proof (cases "k' = k")
      case True
      with a show ?thesis by (auto simp: map_entry_update update_conv' split: option.splits)
    next
      case False
      with a have "map_of (synced s) k' = Some wm"
        by (auto simp: map_entry_update update_conv' split: option.splits)
      with False assms(3) show ?thesis using invar_bucket [OF assms(1), of k' wm w] by auto
    qed
  qed
  have al: "allocated ?s1 w" using assms(2) by (simp add: allocated_def)
  let ?s2 = "?s1\<lparr>unsynced := List.insert w (unsynced ?s1)\<rparr>"
  have i2: "invar ?s2" by (rule invar_add_unsynced [OF i1 al out])
  have i3: "invar (?s2\<lparr>heap := (heap s)(w := (heap s w)\<lparr>cur := rev'\<rparr>)\<rparr>)"
    by (rule invar_heap [OF i2]) simp
  have eq: "?s2\<lparr>heap := (heap s)(w := (heap s w)\<lparr>cur := rev'\<rparr>)\<rparr> =
      s\<lparr>heap := (heap s)(w := (heap s w)\<lparr>cur := rev'\<rparr>),
        unsynced := List.insert w (unsynced s),
        synced := AList.map_entry k (removeAll w) (synced s)\<rparr>"
    by (cases s) simp
  from i3 show ?thesis by (simp only: eq)
qed

lemma invar_notifyWatcher:
  assumes "invar s" "allocated s w" "key (heap s w) = k"
  shows "invar (notifyWatcher rev' we k w s)"
proof (cases rule: notifyWatcher_cases [of we w rev' k s])
  case skip
  with assms(1) show ?thesis by simp
next
  case (sent es)
  show ?thesis unfolding sent(3) by (rule invar_chans [OF assms(1)])
next
  case (demoted es)
  show ?thesis unfolding demoted(3) by (rule invar_demote [OF assms])
qed

lemma notifyWatcher_nextp [simp]: "nextp (notifyWatcher rev' we k w s) = nextp s"
  by (cases rule: notifyWatcher_cases [of we w rev' k s]) simp_all

lemma notifyWatcher_store [simp]: "store (notifyWatcher rev' we k w s) = store s"
  by (cases rule: notifyWatcher_cases [of we w rev' k s]) simp_all

lemma notifyWatcher_cap [simp]: "cap (notifyWatcher rev' we k w s) = cap s"
  by (cases rule: notifyWatcher_cases [of we w rev' k s]) simp_all

lemma notifyWatcher_nextc [simp]: "nextc (notifyWatcher rev' we k w s) = nextc s"
  by (cases rule: notifyWatcher_cases [of we w rev' k s]) simp_all

lemma notifyWatcher_key [simp]: "key (heap (notifyWatcher rev' we k w s) w') = key (heap s w')"
  by (cases rule: notifyWatcher_cases [of we w rev' k s]) simp_all

lemma notifyWatcher_prefix [simp]:
  "prefix (heap (notifyWatcher rev' we k w s) w') = prefix (heap s w')"
  by (cases rule: notifyWatcher_cases [of we w rev' k s]) simp_all

lemma notifyWatcher_id [simp]: "id_w (heap (notifyWatcher rev' we k w s) w') = id_w (heap s w')"
  by (cases rule: notifyWatcher_cases [of we w rev' k s]) simp_all

lemma notifyWatcher_ch [simp]: "ch (heap (notifyWatcher rev' we k w s) w') = ch (heap s w')"
  by (cases rule: notifyWatcher_cases [of we w rev' k s]) simp_all

lemma invar_notifyBucket:
  assumes "invar s" "\<And>w. w \<in> set wm \<Longrightarrow> allocated s w \<and> key (heap s w) = k"
  shows "invar (notifyBucket rev' we k wm s)"
  using assms
proof (induction wm arbitrary: s)
  case Nil
  then show ?case by simp
next
  case (Cons w wm)
  have "invar (notifyWatcher rev' we k w s)"
    by (rule invar_notifyWatcher) (use Cons.prems in auto)
  moreover have "allocated (notifyWatcher rev' we k w s) w' \<and>
      key (heap (notifyWatcher rev' we k w s) w') = k" if "w' \<in> set wm" for w'
    using Cons.prems(2) [of w'] that by (simp add: allocated_def)
  ultimately show ?case using Cons.IH by simp
qed

lemma notifyBucket_nextp [simp]: "nextp (notifyBucket rev' we k wm s) = nextp s"
  by (induction wm arbitrary: s) simp_all

lemma notifyBucket_key [simp]: "key (heap (notifyBucket rev' we k wm s) w') = key (heap s w')"
  by (induction wm arbitrary: s) simp_all

lemma invar_notifyBuckets:
  assumes "invar s"
    "\<And>k wm w. (k, wm) \<in> set sm \<Longrightarrow> w \<in> set wm \<Longrightarrow> allocated s w \<and> key (heap s w) = k"
  shows "invar (notifyBuckets rev' we sm s)"
  using assms
proof (induction sm arbitrary: s)
  case Nil
  then show ?case by simp
next
  case (Cons p sm)
  obtain k wm where p: "p = (k, wm)" by (cases p)
  have i: "invar (notifyBucket rev' we k wm s)"
    by (rule invar_notifyBucket [OF Cons.prems(1)]) (use Cons.prems(2) p in auto)
  have "invar (notifyBuckets rev' we sm (notifyBucket rev' we k wm s))"
  proof (rule Cons.IH [OF i])
    fix k' wm' w assume "(k', wm') \<in> set sm" "w \<in> set wm'"
    then show "allocated (notifyBucket rev' we k wm s) w \<and>
       key (heap (notifyBucket rev' we k wm s) w) = k'"
      using Cons.prems(2) [of k' wm' w] by (simp add: allocated_def)
  qed
  with p show ?case by simp
qed

lemma invar_notify:
  assumes "invar s"
  shows "invar (notify rev' evs s)"
  unfolding notify_def Let_def
proof (rule invar_notifyBuckets [OF assms])
  fix k wm w assume a: "(k, wm) \<in> set (synced s)" "w \<in> set wm"
  from a(1) invar_keys [OF assms] have "map_of (synced s) k = Some wm" by simp
  from invar_bucket [OF assms this a(2)]
  show "allocated s w \<and> key (heap s w) = k" by simp
qed

lemma invar_handle: "invar s \<Longrightarrow> invar (handle rev' evs s)"
  by (simp add: handle_def invar_notify)

lemma invar_Put:
  assumes "invar s" "Put store_Put key' val lease s = Inr (r, s')"
  shows "invar s'"
  using assms
  by (auto simp: Put_def Let_def invar_handle invar_store split: prod.splits if_splits)

lemma invar_DeleteRange:
  assumes "invar s" "DeleteRange store_DeleteRange key' end' s = Inr (r, s')"
  shows "invar s'"
  using assms
  by (auto simp: DeleteRange_def Let_def invar_handle invar_store split: prod.splits if_splits)

lemma invar_TxnBegin: "invar s \<Longrightarrow> invar (snd (TxnBegin store_TxnBegin s))"
  by (auto simp: TxnBegin_def invar_store split: prod.splits)

lemma invar_TxnEnd: "invar s \<Longrightarrow> invar (snd (TxnEnd store_TxnEnd txnID s))"
  by (auto simp: TxnEnd_def Let_def invar_handle invar_store split: prod.splits)

subsection \<open>The sync pass\<close>

lemma invar_sub_unsynced:
  assumes "invar s" "distinct u" "set u \<subseteq> set (unsynced s)"
  shows "invar (s\<lparr>unsynced := u\<rparr>)"
proof (rule invarI)
  fix k wm w assume "map_of (synced (s\<lparr>unsynced := u\<rparr>)) k = Some wm" "w \<in> set wm"
  then show "key (heap (s\<lparr>unsynced := u\<rparr>) w) = k \<and> allocated (s\<lparr>unsynced := u\<rparr>) w \<and>
     w \<notin> set (unsynced (s\<lparr>unsynced := u\<rparr>))"
    using invar_bucket [OF assms(1), of k wm w] assms(3) by (auto simp: allocated_def)
next
  fix w assume "w \<in> set (unsynced (s\<lparr>unsynced := u\<rparr>))"
  then show "allocated (s\<lparr>unsynced := u\<rparr>) w"
    using invar_unsynced_alloc [OF assms(1), of w] assms(3) by (auto simp: allocated_def)
qed (use assms in \<open>simp_all add: invar_keys invar_nextp invar_bucket_distinct\<close>)

lemma map_of_addUnsynced:
  "map_of (addUnsynced k w m) k' =
     (if k' = k then Some (List.insert w (bucket m k)) else map_of m k')"
  by (auto simp: addUnsynced_def bucket_def map_of_map_entry update_conv' split: option.splits)

lemma syncCollect_Cons:
  "syncCollect h curRev compactionRev (w # ws) (uns, minRev, m, pfx) =
     (if cur (h w) > curRev
      then Inl (Panic ''watcher current revision should not exceed current revision'')
      else if cur (h w) < compactionRev
      then syncCollect h curRev compactionRev ws (removeAll w uns, minRev, m, pfx)
      else syncCollect h curRev compactionRev ws
             (uns, (if minRev \<ge> cur (h w) then cur (h w) else minRev),
              addUnsynced (key (h w)) w m,
              (if prefix (h w) then List.insert (key (h w)) pfx else pfx)))"
  by (simp add: Let_def addUnsynced_def)

lemma wf_registry_addUnsynced:
  assumes "wf_registry h m" "key (h w) = k"
  shows "wf_registry h (addUnsynced k w m)"
  unfolding wf_registry_def
proof (intro allI impI)
  fix k' v assume a: "map_of (addUnsynced k w m) k' = Some v"
  show "distinct v \<and> (\<forall>w\<in>set v. key (h w) = k')"
  proof (cases "k' = k")
    case True
    with a have v: "v = List.insert w (bucket m k)" by (simp add: map_of_addUnsynced)
    have "distinct (bucket m k) \<and> (\<forall>w\<in>set (bucket m k). key (h w) = k)"
      using assms(1) by (auto simp: wf_registry_def bucket_def split: option.splits)
    with v True assms(2) show ?thesis by auto
  next
    case False
    with a assms(1) show ?thesis by (simp add: map_of_addUnsynced wf_registry_def)
  qed
qed

lemma registered_addUnsynced:
  assumes "key (h w) = k"
  shows "registered h (addUnsynced k w m) w' \<longleftrightarrow> w' = w \<or> registered h m w'"
  using assms
  by (auto simp: registered_def map_of_addUnsynced bucket_def split: option.splits)

lemma syncCollect_unsynced:
  "syncCollect h curRev compactionRev ws (uns, minRev, m, pfx) = Inr (uns', minRev', m', pfx') \<Longrightarrow>
   set uns' = set uns - {w \<in> set ws. \<not> kept h compactionRev w} \<and> (distinct uns \<longrightarrow> distinct uns')"
proof (induction ws arbitrary: uns minRev m pfx)
  case Nil
  then show ?case by simp
next
  case (Cons a ws)
  show ?case
  proof (cases "cur (h a) < compactionRev")
    case True
    with Cons.prems have "syncCollect h curRev compactionRev ws (removeAll a uns, minRev, m, pfx) =
        Inr (uns', minRev', m', pfx')"
      by (simp add: syncCollect_Cons del: syncCollect.simps split: if_splits)
    from Cons.IH [OF this] True show ?thesis
      by (auto simp: kept_def distinct_removeAll)
  next
    case False
    with Cons.prems have "syncCollect h curRev compactionRev ws
             (uns, (if minRev \<ge> cur (h a) then cur (h a) else minRev),
              addUnsynced (key (h a)) a m,
              (if prefix (h a) then List.insert (key (h a)) pfx else pfx)) =
        Inr (uns', minRev', m', pfx')"
      by (simp add: syncCollect_Cons del: syncCollect.simps split: if_splits)
    from Cons.IH [OF this] False show ?thesis
      by (auto simp: kept_def)
  qed
qed

lemma syncCollect_registry:
  "syncCollect h curRev compactionRev ws (uns, minRev, m, pfx) = Inr (uns', minRev', m', pfx') \<Longrightarrow>
   (wf_registry h m \<longrightarrow> wf_registry h m') \<and>
   (registered h m' w \<longleftrightarrow> registered h m w \<or> (w \<in> set ws \<and> kept h compactionRev w)) \<and>
   (\<forall>w \<in> set ws. cur (h w) \<le> curRev) \<and>
   set pfx' = set pfx \<union> {key (h w) |w. w \<in> set ws \<and> kept h compactionRev w \<and> prefix (h w)}"
proof (induction ws arbitrary: uns minRev m pfx)
  case Nil
  then show ?case by simp
next
  case (Cons a ws)
  from Cons.prems have le: "cur (h a) \<le> curRev"
    by (simp add: syncCollect_Cons del: syncCollect.simps split: if_splits)
  show ?case
  proof (cases "cur (h a) < compactionRev")
    case True
    with Cons.prems have "syncCollect h curRev compactionRev ws (removeAll a uns, minRev, m, pfx) =
        Inr (uns', minRev', m', pfx')"
      by (simp add: syncCollect_Cons del: syncCollect.simps split: if_splits)
    from Cons.IH [OF this] True le show ?thesis
      by (auto simp: kept_def)
  next
    case False
    let ?m = "addUnsynced (key (h a)) a m"
    let ?p = "if prefix (h a) then List.insert (key (h a)) pfx else pfx"
    from False Cons.prems have "syncCollect h curRev compactionRev ws
             (uns, (if minRev \<ge> cur (h a) then cur (h a) else minRev), ?m, ?p) =
        Inr (uns', minRev', m', pfx')"
      by (simp add: syncCollect_Cons del: syncCollect.simps split: if_splits)
    note ih = Cons.IH [OF this]
    have 1: "wf_registry h m \<longrightarrow> wf_registry h m'"
      using ih wf_registry_addUnsynced [of h m a "key (h a)"] by blast
    have 2: "registered h m' w \<longleftrightarrow> registered h m w \<or> (w \<in> set (a # ws) \<and> kept h compactionRev w)"
      using ih False registered_addUnsynced [of h a "key (h a)" m w]
      by (auto simp: kept_def)
    have 3: "\<forall>w \<in> set (a # ws). cur (h w) \<le> curRev" using ih le by simp
    have 4: "set pfx' = set pfx \<union>
        {key (h w) |w. w \<in> set (a # ws) \<and> kept h compactionRev w \<and> prefix (h w)}"
      using ih False by (auto simp: kept_def)
    from 1 2 3 4 show ?thesis by blast
  qed
qed

lemma matchPrefix_iff: "matchPrefix k pfx \<longleftrightarrow> (\<exists>p \<in> set pfx. HasPrefix k p)"
  by (induction pfx) auto

lemma syncEvents_result:
  "syncEvents m pfx recs evs = Inr evs' \<Longrightarrow>
   evs' = evs @ filter (relevant m pfx) (scannedEvents recs)"
proof (induction recs arbitrary: evs)
  case Nil
  then show ?case by (simp add: scannedEvents_def)
next
  case (Cons r recs)
  obtain ki v where r: "r = (ki, v)" by (cases r)
  from Cons.prems r obtain kv where v: "v = Some kv" by (cases v) auto
  show ?case
  proof (cases "relevant m pfx (toEvent ki kv)")
    case True
    with Cons.prems r v have "syncEvents m pfx recs (evs @ [toEvent ki kv]) = Inr evs'"
      by (auto simp: relevant_def toEvent_def Let_def)
    from Cons.IH [OF this] True r v show ?thesis by (simp add: scannedEvents_def)
  next
    case False
    with Cons.prems r v have "syncEvents m pfx recs evs = Inr evs'"
      by (auto simp: relevant_def toEvent_def Let_def)
    from Cons.IH [OF this] False r v show ?thesis by (simp add: scannedEvents_def)
  qed
qed

lemma matches_relevant:
  assumes "registered h m w" "prefix (h w) \<Longrightarrow> key (h w) \<in> set pfx" "matches (h w) e"
  shows "relevant m pfx e"
proof (cases "key (h w) = Key (Kv e)")
  case True
  with assms(1) show ?thesis by (auto simp: relevant_def registered_def)
next
  case False
  with assms(3) have "prefix (h w)" "HasPrefix (Key (Kv e)) (key (h w))"
    by (auto simp: matches_def)
  with assms(2) show ?thesis by (auto simp: relevant_def matchPrefix_iff)
qed

lemma registered_Nil [simp]: "\<not> registered h [] w"
  by (simp add: registered_def)

lemma wf_registry_Nil [simp]: "wf_registry h []"
  by (simp add: wf_registry_def)

text \<open>What \<open>syncScan\<close> returns, in closed form.\<close>

lemma syncScan_result:
  assumes "syncScan s = Inr (w2e, s1)"
  obtains uns lo where
    "s1 = s\<lparr>unsynced := uns\<rparr>"
    "set uns = {w \<in> set (unsynced s). kept (heap s) (compactMainRev (store s)) w}"
    "distinct (unsynced s) \<longrightarrow> distinct uns"
    "\<forall>w \<in> set (unsynced s). cur (heap s w) \<le> currentRev (store s)"
    "\<forall>w. map_of w2e w =
       (if w \<in> set uns \<and>
           (\<exists>e \<in> set (scannedEvents (UnsafeRange (store s) lo (currentRev (store s) + 1))).
              matches (heap s w) e)
        then Some (filter (matches (heap s w))
                     (scannedEvents (UnsafeRange (store s) lo (currentRev (store s) + 1))))
        else None)"
proof -
  let ?h = "heap s" and ?c = "currentRev (store s)" and ?cr = "compactMainRev (store s)"
  from assms obtain uns lo m pfx evs where
    col: "syncCollect ?h ?c ?cr (unsynced s) (unsynced s, MaxInt64, [], []) = Inr (uns, lo, m, pfx)"
    and ev: "syncEvents m pfx (UnsafeRange (store s) lo (?c + 1)) [] = Inr evs"
    and w2e: "w2e = newWatcherToEventMap ?h m evs" and s1: "s1 = s\<lparr>unsynced := uns\<rparr>"
    by (auto simp: syncScan_def Let_def split: sum.splits prod.splits)
  let ?sc = "scannedEvents (UnsafeRange (store s) lo (?c + 1))"
  from syncCollect_unsynced [OF col]
  have u: "set uns = {w \<in> set (unsynced s). kept ?h ?cr w}" "distinct (unsynced s) \<longrightarrow> distinct uns"
    by auto
  have wf: "wf_registry ?h m" using syncCollect_registry [OF col] by simp
  have reg: "registered ?h m w \<longleftrightarrow> w \<in> set uns" for w
    using syncCollect_registry [OF col, of w] u(1) by auto
  have le: "\<forall>w \<in> set (unsynced s). cur (?h w) \<le> ?c"
    using syncCollect_registry [OF col] by blast
  have pf: "set pfx = {key (?h w) |w. w \<in> set (unsynced s) \<and> kept ?h ?cr w \<and> prefix (?h w)}"
    using syncCollect_registry [OF col] by simp
  have evs: "evs = filter (relevant m pfx) ?sc" using syncEvents_result [OF ev] by simp
  have fl: "filter (matches (?h w)) evs = filter (matches (?h w)) ?sc" if "w \<in> set uns" for w
  proof -
    have "matches (?h w) e \<Longrightarrow> relevant m pfx e" for e
    proof (rule matches_relevant [of ?h m w])
      show "registered ?h m w" using that reg by simp
      show "key (?h w) \<in> set pfx" if "prefix (?h w)"
        using that \<open>w \<in> set uns\<close> u(1) pf by auto
    qed
    then show ?thesis unfolding evs filter_filter by (auto intro: filter_cong)
  qed
  have ex: "(\<exists>e \<in> set evs. matches (?h w) e) \<longleftrightarrow> (\<exists>e \<in> set ?sc. matches (?h w) e)"
    if "w \<in> set uns" for w
    using fl [OF that] by (metis filter_empty_conv)
  have "map_of w2e w =
       (if w \<in> set uns \<and> (\<exists>e \<in> set ?sc. matches (?h w) e)
        then Some (filter (matches (?h w)) ?sc) else None)" for w
    unfolding w2e newWatcherToEventMap_map_of [OF wf] reg
    using fl [of w] ex [of w] by auto
  then have "\<forall>w. map_of w2e w =
       (if w \<in> set uns \<and> (\<exists>e \<in> set ?sc. matches (?h w) e)
        then Some (filter (matches (?h w)) ?sc) else None)" by blast
  with s1 u le show thesis by (rule that)
qed

lemma unsafeAddWatcher_Inr:
  assumes "unsafeAddWatcher mp k wa = Inr mp'"
  shows "wa \<noteq> nil \<and> wa \<notin> set (bucket mp k) \<and> mp' = AList.update k (bucket mp k @ [wa]) mp"
  using assms by (auto simp: unsafeAddWatcher_def bucket_def split: if_splits option.splits)

lemma syncWatcher_cases:
  assumes "syncWatcher w es s = Inr s'"
  obtains (blocked) "\<not> length (chans s (ch (heap s w))) < cap s (ch (heap s w))" "s' = s"
  | (promoted) "length (chans s (ch (heap s w))) < cap s (ch (heap s w))"
      "w \<noteq> nil" "w \<notin> set (bucket (synced s) (key (heap s w)))"
      "s' = s\<lparr>chans := (chans s)(ch (heap s w) := chans s (ch (heap s w)) @
                 [\<lparr>WatchID = id_w (heap s w), Events = es, Revision = currentRev (store s)\<rparr>]),
              synced := AList.update (key (heap s w)) (bucket (synced s) (key (heap s w)) @ [w])
                          (synced s),
              unsynced := removeAll w (unsynced s)\<rparr>"
proof (cases "length (chans s (ch (heap s w))) < cap s (ch (heap s w))")
  case False
  with assms have "s' = s" by (simp add: syncWatcher_def trySend_def)
  with False show ?thesis by (rule blocked)
next
  case True
  with assms obtain mp where mp: "unsafeAddWatcher (synced s) (key (heap s w)) w = Inr mp"
    and s': "s' = s\<lparr>chans := (chans s)(ch (heap s w) := chans s (ch (heap s w)) @
                 [\<lparr>WatchID = id_w (heap s w), Events = es, Revision = currentRev (store s)\<rparr>]),
              synced := mp, unsynced := removeAll w (unsynced s)\<rparr>"
    by (auto simp: syncWatcher_def trySend_def Let_def split: sum.splits)
  from unsafeAddWatcher_Inr [OF mp] s' True show ?thesis by (intro promoted) auto
qed

lemma invar_promote:
  assumes "invar s" "allocated s w" "w \<notin> set (bucket (synced s) (key (heap s w)))"
  shows "invar (s\<lparr>chans := cs,
              synced := AList.update (key (heap s w)) (bucket (synced s) (key (heap s w)) @ [w])
                          (synced s),
              unsynced := removeAll w (unsynced s)\<rparr>)"
proof -
  let ?k = "key (heap s w)"
  let ?s1 = "s\<lparr>unsynced := removeAll w (unsynced s)\<rparr>"
  have i1: "invar ?s1" by (rule invar_remove_unsynced [OF assms(1)])
  have d: "distinct (bucket (synced s) ?k @ [w])"
    using assms(3) invar_bucket_distinct [OF assms(1), of ?k]
    by (auto simp: bucket_def split: option.splits)
  have i2: "invar (?s1\<lparr>synced := AList.update ?k (bucket (synced s) ?k @ [w]) (synced ?s1)\<rparr>)"
  proof (rule invar_set_bucket [OF i1 d])
    fix w' assume a: "w' \<in> set (bucket (synced s) ?k @ [w])"
    show "key (heap ?s1 w') = ?k \<and> allocated ?s1 w' \<and> w' \<notin> set (unsynced ?s1)"
    proof (cases "w' = w")
      case True
      with assms(2) show ?thesis by (simp add: allocated_def)
    next
      case False
      with a obtain v where "map_of (synced s) ?k = Some v" "w' \<in> set v"
        by (cases "map_of (synced s) ?k") (auto simp: bucket_def)
      from invar_bucket [OF assms(1) this] show ?thesis by (simp add: allocated_def)
    qed
  qed
  have "invar ((?s1\<lparr>synced := AList.update ?k (bucket (synced s) ?k @ [w]) (synced ?s1)\<rparr>)
           \<lparr>chans := cs\<rparr>)"
    by (rule invar_chans [OF i2])
  moreover have "(?s1\<lparr>synced := AList.update ?k (bucket (synced s) ?k @ [w]) (synced ?s1)\<rparr>)
           \<lparr>chans := cs\<rparr> =
     s\<lparr>chans := cs,
       synced := AList.update ?k (bucket (synced s) ?k @ [w]) (synced s),
       unsynced := removeAll w (unsynced s)\<rparr>"
    by (cases s) simp
  ultimately show ?thesis by (simp only:)
qed

lemma invar_syncWatcher:
  assumes "invar s" "allocated s w" "syncWatcher w es s = Inr s'"
  shows "invar s'"
  using assms(3)
proof (cases rule: syncWatcher_cases)
  case blocked
  with assms(1) show ?thesis by simp
next
  case promoted
  show ?thesis unfolding promoted(4) by (rule invar_promote [OF assms(1,2) promoted(3)])
qed

lemma syncWatcher_frame:
  assumes "syncWatcher w es s = Inr s'"
  shows "heap s' = heap s \<and> store s' = store s \<and> nextp s' = nextp s \<and> cap s' = cap s \<and>
         nextc s' = nextc s"
  using assms by (cases rule: syncWatcher_cases) auto

lemma invar_syncSend:
  assumes "invar s" "\<And>w es. (w, es) \<in> set wes \<Longrightarrow> allocated s w" "syncSend wes s = Inr s'"
  shows "invar s'"
  using assms
proof (induction wes arbitrary: s)
  case Nil
  then show ?case by simp
next
  case (Cons p wes)
  obtain w es where p: "p = (w, es)" by (cases p)
  from Cons.prems(3) p obtain s1 where s1: "syncWatcher w es s = Inr s1"
    and r: "syncSend wes s1 = Inr s'"
    by (auto split: sum.splits)
  have i1: "invar s1"
    by (rule invar_syncWatcher [OF Cons.prems(1) _ s1]) (use Cons.prems(2) p in auto)
  show ?case
  proof (rule Cons.IH [OF i1 _ r])
    fix w' es' assume "(w', es') \<in> set wes"
    then have "allocated s w'" using Cons.prems(2) by auto
    then show "allocated s1 w'" using syncWatcher_frame [OF s1] by (simp add: allocated_def)
  qed
qed

lemma syncSend_frame:
  assumes "syncSend wes s = Inr s'"
  shows "heap s' = heap s \<and> store s' = store s \<and> nextp s' = nextp s \<and> cap s' = cap s \<and>
         nextc s' = nextc s"
  using assms
proof (induction wes arbitrary: s)
  case Nil
  then show ?case by simp
next
  case (Cons p wes)
  obtain w es where p: "p = (w, es)" by (cases p)
  from Cons.prems p obtain s1 where s1: "syncWatcher w es s = Inr s1"
    and r: "syncSend wes s1 = Inr s'"
    by (auto split: sum.splits)
  from Cons.IH [OF r] syncWatcher_frame [OF s1] show ?case by simp
qed

text \<open>The sync pass with the last loop taken in any order of the watcher-to-events map.\<close>

lemma invar_sync_any_order:
  assumes "invar s" "syncScan s = Inr (w2e, s1)" "set w2e' = set w2e" "syncSend w2e' s1 = Inr s'"
  shows "invar s'"
proof -
  from assms(2) obtain uns lo where s1: "s1 = s\<lparr>unsynced := uns\<rparr>"
    and u: "set uns = {w \<in> set (unsynced s). kept (heap s) (compactMainRev (store s)) w}"
    and d: "distinct (unsynced s) \<longrightarrow> distinct uns"
    and le: "\<forall>w \<in> set (unsynced s). cur (heap s w) \<le> currentRev (store s)"
    and m: "\<forall>w. map_of w2e w =
       (if w \<in> set uns \<and>
           (\<exists>e \<in> set (scannedEvents (UnsafeRange (store s) lo (currentRev (store s) + 1))).
              matches (heap s w) e)
        then Some (filter (matches (heap s w))
                     (scannedEvents (UnsafeRange (store s) lo (currentRev (store s) + 1))))
        else None)"
    by (rule syncScan_result)
  have i1: "invar s1" unfolding s1
    by (rule invar_sub_unsynced [OF assms(1)]) (use u d invar_unsynced [OF assms(1)] in auto)
  show ?thesis
  proof (rule invar_syncSend [OF i1 _ assms(4)])
    fix w es assume "(w, es) \<in> set w2e'"
    with assms(3) have "(w, es) \<in> set w2e" by simp
    then have "map_of w2e w \<noteq> None" by (metis weak_map_of_SomeI option.distinct(1))
    with m have "w \<in> set uns" by (auto split: if_splits)
    with s1 show "allocated s1 w" using invar_unsynced_alloc [OF i1, of w] by simp
  qed
qed

lemma invar_syncWatchers:
  assumes "invar s" "syncWatchers s = Inr s'"
  shows "invar s'"
proof (cases "length (unsynced s) = 0")
  case True
  with assms show ?thesis by (simp add: syncWatchers_def)
next
  case False
  with assms(2) obtain w2e s1 where "syncScan s = Inr (w2e, s1)" "syncSend w2e s1 = Inr s'"
    by (auto simp: syncWatchers_def split: sum.splits)
  with assms(1) show ?thesis using invar_sync_any_order [of s w2e s1 w2e s'] by simp
qed

subsection \<open>The invariant holds in every reachable state\<close>

lemma invar_same_maps:
  assumes "invar s" "same_maps s s'"
  shows "invar s'"
proof -
  from assms(2) have eq: "s' = s\<lparr>unsynced := unsynced s', synced := synced s'\<rparr>"
    and du: "distinct (unsynced s')" and su: "set (unsynced s') = set (unsynced s)"
    and ro: "reordered (synced s) (synced s')"
    by (simp_all add: same_maps_def)
  have hp: "heap s' = heap s" "nextp s' = nextp s"
    by (subst eq, simp)+
  have bk: "map_of (synced s') k = Some wm \<Longrightarrow>
      \<exists>v. map_of (synced s) k = Some v \<and> set wm = set v \<and> distinct wm" for k wm
  proof -
    assume a: "map_of (synced s') k = Some wm"
    from ro have "(map_of (synced s') k = None) = (map_of (synced s) k = None)"
      unfolding reordered_def by blast
    with a have "map_of (synced s) k \<noteq> None" by simp
    then obtain v where v: "map_of (synced s) k = Some v" by blast
    from ro have "set (bucket (synced s') k) = set (bucket (synced s) k)"
      "distinct (bucket (synced s') k)" by (auto simp: reordered_def)
    with a v show ?thesis by (simp add: bucket_def)
  qed
  show ?thesis
  proof (rule invarI)
    show "distinct (map fst (synced s'))" using ro by (simp add: reordered_def)
    show "distinct (unsynced s')" by (rule du)
    show "nil < nextp s'" using invar_nextp [OF assms(1)] hp by simp
    show "allocated s' w" if "w \<in> set (unsynced s')" for w
      using that su invar_unsynced_alloc [OF assms(1), of w] hp by (simp add: allocated_def)
    show "distinct wm" if "map_of (synced s') k = Some wm" for k wm
      using bk [OF that] by blast
    show "key (heap s' w) = k \<and> allocated s' w \<and> w \<notin> set (unsynced s')"
      if "map_of (synced s') k = Some wm" "w \<in> set wm" for k wm w
    proof -
      from bk [OF that(1)] obtain v where v: "map_of (synced s) k = Some v" "set wm = set v"
        by blast
      with that(2) have "w \<in> set v" by simp
      from invar_bucket [OF assms(1) v(1) this] show ?thesis
        using hp su by (simp add: allocated_def)
    qed
  qed
qed

lemma reachable_invar: "reachable s \<Longrightarrow> invar s"
proof (induction rule: reachable.induct)
  case (init st)
  show ?case by (rule invar_init)
next
  case (chan s n)
  then show ?case by (simp add: invar_makeChan)
next
  case (watch s key' prefix' startRev id' ch' r s')
  then show ?case using invar_watch by blast
next
  case (cancel s wa)
  then show ?case by (simp add: invar_cancel)
next
  case (Put s store_Put key' val lease rv s')
  then show ?case using invar_Put by blast
next
  case (DeleteRange s store_DeleteRange key' end' nr s')
  then show ?case using invar_DeleteRange by blast
next
  case (TxnBegin s store_TxnBegin)
  then show ?case by (simp add: invar_TxnBegin)
next
  case (TxnEnd s store_TxnEnd txnID)
  then show ?case by (simp add: invar_TxnEnd)
next
  case (inner s st)
  then show ?case by (simp add: invar_store)
next
  case (sync s s')
  then show ?case using invar_syncWatchers by blast
next
  case (sync_order s w2e s1 w2e' s')
  then show ?case using invar_sync_any_order by blast
next
  case (recv s c)
  then show ?case by (simp add: invar_recv)
next
  case (reorder s s')
  then show ?case using invar_same_maps by blast
qed

lemma synced_ptrs_iff:
  "invar s \<Longrightarrow> w \<in> synced_ptrs s \<longleftrightarrow> (\<exists>k wm. map_of (synced s) k = Some wm \<and> w \<in> set wm)"
proof -
  assume "invar s"
  then have d: "distinct (map fst (synced s))" by (rule invar_keys)
  have "w \<in> synced_ptrs s \<longleftrightarrow> (\<exists>k wm. (k, wm) \<in> set (synced s) \<and> w \<in> set wm)"
    by (force simp: synced_ptrs_def)
  then show ?thesis by (simp add: map_of_eq_Some_iff [OF d])
qed

lemma invar_disjoint:
  assumes "invar s"
  shows "\<not> (w \<in> set (unsynced s) \<and> w \<in> synced_ptrs s)"
  using invar_bucket [OF assms] synced_ptrs_iff [OF assms, of w] by blast

lemma cancel_idem:
  assumes "invar s"
  shows "cancel wa k (cancel wa k s) = cancel wa k s \<and>
         wa \<notin> set (unsynced (cancel wa k s)) \<and> wa \<notin> set (bucket (synced (cancel wa k s)) k)"
proof (cases "wa \<in> set (unsynced s)")
  case True
  then have c: "cancel wa k s = s\<lparr>unsynced := removeAll wa (unsynced s)\<rparr>"
    by (simp add: cancel_def)
  have "wa \<notin> set (bucket (synced s) k)"
    using invar_bucket [OF assms, of k _ wa] True
    by (cases "map_of (synced s) k") (auto simp: bucket_def)
  then show ?thesis unfolding c
    by (auto simp: cancel_def bucket_def split: option.splits)
next
  case False
  show ?thesis
  proof (cases "map_of (synced s) k")
    case None
    with False show ?thesis by (simp add: cancel_def bucket_def)
  next
    case (Some v)
    show ?thesis
    proof (cases "wa \<in> set v")
      case n: False
      with False Some show ?thesis by (simp add: cancel_def bucket_def)
    next
      case y: True
      show ?thesis
      proof (cases "removeAll wa v = []")
        case True
        with False Some y have c: "cancel wa k s = s\<lparr>synced := AList.delete k (synced s)\<rparr>"
          by (simp add: cancel_def)
        show ?thesis unfolding c using False
          by (simp add: cancel_def bucket_def delete_conv')
      next
        case ne: False
        with False Some y have c:
          "cancel wa k s = s\<lparr>synced := AList.update k (removeAll wa v) (synced s)\<rparr>"
          by (simp add: cancel_def Let_def)
        show ?thesis unfolding c using False
          by (simp add: cancel_def bucket_def update_conv')
      qed
    qed
  qed
qed

subsection \<open>Example states and panics of the sync pass\<close>

lemma reachable_ex0: "reachable ex0"
  unfolding ex0_def by (rule reachable.chan [OF reachable.init])

lemma watch_ex0:
  "watch ''k'' False 0 7 0 ex0 = Inr ((Suc 0, cancel (Suc 0) ''k''), ex_synced)"
  by (simp add: watch_def ex_synced_def ex0_def makeChan_def newWatchableStore_def nil_def
      unsafeAddWatcher_def Let_def)

lemma reachable_ex_synced: "reachable ex_synced"
  by (rule reachable.watch [OF reachable_ex0 watch_ex0])

lemma ex_synced_member: "Suc 0 \<in> synced_ptrs ex_synced"
  by (simp add: synced_ptrs_def ex_synced_def ex0_def makeChan_def newWatchableStore_def)

lemma cancel_ex_synced: "cancel (Suc 0) ''k'' ex_synced = ex_synced\<lparr>synced := []\<rparr>"
  by (simp add: cancel_def ex_synced_def ex0_def makeChan_def newWatchableStore_def)

lemma cancel_heap [simp]: "heap (cancel wa k s) = heap s"
  by (simp add: cancel_def Let_def split: option.splits)

lemma cancel_not_synced:
  assumes "invar s"
  shows "wa \<notin> synced_ptrs (cancel wa (key (heap s wa)) s)"
proof
  let ?s' = "cancel wa (key (heap s wa)) s"
  assume a: "wa \<in> synced_ptrs ?s'"
  have i: "invar ?s'" by (rule invar_cancel [OF assms])
  from a synced_ptrs_iff [OF i, of wa] obtain k wm
    where m: "map_of (synced ?s') k = Some wm" "wa \<in> set wm" by blast
  from invar_bucket [OF i m] have "k = key (heap s wa)" by simp
  with m have "wa \<in> set (bucket (synced ?s') (key (heap s wa)))" by (simp add: bucket_def)
  with cancel_idem [OF assms, of wa "key (heap s wa)"] show False by blast
qed

lemma Put_ex_put: "Put ex_put k v l s = Inr (projr (Put ex_put k v l s))"
  by (simp add: Put_def Let_def ex_put_def getChanges_def split: prod.splits)

lemma reachable_ex_once: "reachable ex_once"
  unfolding ex_once_def
  by (rule reachable.Put [OF reachable_ex_synced, of ex_put "''k''" None 0
        "fst (projr (Put ex_put ''k'' None 0 ex_synced))"])
     (simp add: Put_ex_put [symmetric])

lemma reachable_ex_twice: "reachable ex_twice"
  unfolding ex_twice_def
  by (rule reachable.Put [OF reachable_ex_once, of ex_put "''k''" None 0
        "fst (projr (Put ex_put ''k'' None 0 ex_once))"])
     (simp add: Put_ex_put [symmetric])

lemmas ex_defs = ex_twice_def ex_once_def ex_synced_def ex0_def ex_store_def ex_put_def ex_kv_def
  Put_def handle_def notify_def newWatcherToEventMap_def notifyWatcher_def trySend_def
  makeChan_def newWatchableStore_def getChanges_def Rev_def Let_def nil_def

lemma watch_unsynced:
  "startRev \<noteq> 0 \<Longrightarrow>
   watch key' prefix' startRev id' ch' s = Inr (projr (watch key' prefix' startRev id' ch' s))"
  by (simp add: watch_def Let_def)

lemma reachable_ex_future: "reachable ex_future"
  unfolding ex_future_def
  by (rule reachable.watch [OF reachable_ex0, of "''k''" False "currentRev (store ex0) + 1" 7 0
        "fst (projr (watch ''k'' False (currentRev (store ex0) + 1) 7 0 ex0))"])
     (simp add: watch_unsynced [symmetric] ex0_def makeChan_def newWatchableStore_def ex_store_def)

lemma reachable_ex_compacted: "reachable ex_compacted"
proof -
  let ?s = "ex0\<lparr>store := \<lparr>currentRev = 12, compactMainRev = 10, changes = [],
                                   keyBucket = []\<rparr>\<rparr>"
  have r: "reachable ?s" by (rule reachable.inner [OF reachable_ex0])
  have "watch ''k'' False 5 7 0 ?s = Inr (fst (projr (watch ''k'' False 5 7 0 ?s)), ex_compacted)"
    unfolding ex_compacted_def by (simp add: watch_unsynced [symmetric])
  from reachable.watch [OF r this] show ?thesis .
qed

lemma syncCollect_panics:
  "w \<in> set ws \<Longrightarrow> cur (h w) > curRev \<Longrightarrow>
   syncCollect h curRev compactionRev ws (uns, minRev, m, pfx) =
     Inl (Panic ''watcher current revision should not exceed current revision'')"
proof (induction ws arbitrary: uns minRev m pfx)
  case Nil
  then show ?case by simp
next
  case (Cons a ws)
  show ?case
  proof (cases "cur (h a) > curRev")
    case True
    then show ?thesis by (simp add: syncCollect_Cons del: syncCollect.simps)
  next
    case False
    with Cons.prems have "w \<in> set ws" by auto
    from Cons.IH [OF this Cons.prems(2)] False show ?thesis
      by (simp add: syncCollect_Cons del: syncCollect.simps)
  qed
qed

lemma syncWatchers_panics:
  assumes "w \<in> set (unsynced s)" "cur (heap s w) > currentRev (store s)"
  shows "syncWatchers s = Inl (Panic ''watcher current revision should not exceed current revision'')"
proof -
  from assms(1) have "length (unsynced s) \<noteq> 0" by auto
  then show ?thesis
    using syncCollect_panics [where w = w and ws = "unsynced s" and h = "heap s"
        and curRev = "currentRev (store s)", OF assms]
    by (simp add: syncWatchers_def syncScan_def Let_def)
qed

subsection \<open>The notifier as one pass over the visited watchers\<close>

lemma notifySteps_Nil [simp]: "notifySteps rev' we [] s = s"
  by (simp add: notifySteps_def)

lemma notifySteps_Cons [simp]:
  "notifySteps rev' we ((k, w) # vs) s = notifySteps rev' we vs (notifyWatcher rev' we k w s)"
  by (simp add: notifySteps_def)

lemma notifySteps_append [simp]:
  "notifySteps rev' we (vs @ vs') s = notifySteps rev' we vs' (notifySteps rev' we vs s)"
  by (simp add: notifySteps_def)

lemma visit_induct:
  "P [] \<Longrightarrow> (\<And>k w vs. P vs \<Longrightarrow> P ((k, w) # vs)) \<Longrightarrow> P vs"
  by (induction vs) auto

lemma notifyBucket_steps:
  "notifyBucket rev' we k wm s = notifySteps rev' we (map (Pair k) wm) s"
  by (induction wm arbitrary: s) simp_all

lemma notifyBuckets_steps:
  "notifyBuckets rev' we sm s = notifySteps rev' we (visits sm) s"
  by (induction sm arbitrary: s) (auto simp: visits_def notifyBucket_steps)

lemma notify_steps:
  "notify rev' evs s =
     notifySteps rev' (newWatcherToEventMap (heap s) (synced s) evs) (visits (synced s)) s"
  by (simp add: notify_def notifyBuckets_steps)

lemma bucket_map_entry:
  "bucket (AList.map_entry k (removeAll w) sm) k' =
     (if k' = k then removeAll w (bucket sm k) else bucket sm k')"
  by (auto simp: bucket_def map_of_map_entry split: option.splits)

lemma map_of_map_entry_None:
  "map_of (AList.map_entry k f sm) k' = None \<longleftrightarrow> map_of sm k' = None"
  by (auto simp: map_of_map_entry split: option.splits)

text \<open>One step leaves every other watcher alone.\<close>

lemma notifyWatcher_frame:
  assumes "w' \<noteq> w \<or> map_of we w = None"
  shows "heap (notifyWatcher rev' we k w s) w' = heap s w'"
    and "w' \<in> set (unsynced (notifyWatcher rev' we k w s)) \<longleftrightarrow> w' \<in> set (unsynced s)"
    and "w' \<in> set (bucket (synced (notifyWatcher rev' we k w s)) k') \<longleftrightarrow>
         w' \<in> set (bucket (synced s) k')"
proof -
  show "heap (notifyWatcher rev' we k w s) w' = heap s w'"
    using assms by (cases rule: notifyWatcher_cases [of we w rev' k s]) auto
  show "w' \<in> set (unsynced (notifyWatcher rev' we k w s)) \<longleftrightarrow> w' \<in> set (unsynced s)"
    using assms by (cases rule: notifyWatcher_cases [of we w rev' k s]) auto
  show "w' \<in> set (bucket (synced (notifyWatcher rev' we k w s)) k') \<longleftrightarrow>
         w' \<in> set (bucket (synced s) k')"
    using assms by (cases rule: notifyWatcher_cases [of we w rev' k s])
      (auto simp: bucket_map_entry)
qed

lemma notifyWatcher_keys:
  "map_of (synced (notifyWatcher rev' we k w s)) k' = None \<longleftrightarrow> map_of (synced s) k' = None"
  by (cases rule: notifyWatcher_cases [of we w rev' k s]) (simp_all add: map_of_map_entry_None)

lemma notifyWatcher_unsynced_mono:
  "w' \<in> set (unsynced s) \<Longrightarrow> w' \<in> set (unsynced (notifyWatcher rev' we k w s))"
  by (cases rule: notifyWatcher_cases [of we w rev' k s]) simp_all

lemma notifyWatcher_synced_antimono:
  "w' \<in> set (bucket (synced (notifyWatcher rev' we k w s)) k') \<Longrightarrow>
   w' \<in> set (bucket (synced s) k')"
  by (cases rule: notifyWatcher_cases [of we w rev' k s])
     (auto simp: bucket_map_entry split: if_splits)

lemma notifySteps_store [simp]: "store (notifySteps rev' we vs s) = store s"
  by (induction vs arbitrary: s rule: visit_induct) simp_all

lemma notifySteps_nextp [simp]: "nextp (notifySteps rev' we vs s) = nextp s"
  by (induction vs arbitrary: s rule: visit_induct) simp_all

lemma notifySteps_cap [simp]: "cap (notifySteps rev' we vs s) = cap s"
  by (induction vs arbitrary: s rule: visit_induct) simp_all

lemma notifySteps_nextc [simp]: "nextc (notifySteps rev' we vs s) = nextc s"
  by (induction vs arbitrary: s rule: visit_induct) simp_all

lemma notifySteps_key [simp]: "key (heap (notifySteps rev' we vs s) w') = key (heap s w')"
  by (induction vs arbitrary: s rule: visit_induct) simp_all

lemma notifySteps_prefix [simp]: "prefix (heap (notifySteps rev' we vs s) w') = prefix (heap s w')"
  by (induction vs arbitrary: s rule: visit_induct) simp_all

lemma notifySteps_id [simp]: "id_w (heap (notifySteps rev' we vs s) w') = id_w (heap s w')"
  by (induction vs arbitrary: s rule: visit_induct) simp_all

lemma notifySteps_ch [simp]: "ch (heap (notifySteps rev' we vs s) w') = ch (heap s w')"
  by (induction vs arbitrary: s rule: visit_induct) simp_all

lemma notifySteps_keys:
  "map_of (synced (notifySteps rev' we vs s)) k' = None \<longleftrightarrow> map_of (synced s) k' = None"
  by (induction vs arbitrary: s rule: visit_induct) (simp_all add: notifyWatcher_keys)

lemma notifySteps_unsynced_mono:
  "w' \<in> set (unsynced s) \<Longrightarrow> w' \<in> set (unsynced (notifySteps rev' we vs s))"
  by (induction vs arbitrary: s rule: visit_induct) (simp_all add: notifyWatcher_unsynced_mono)

lemma notifySteps_synced_antimono:
  "w' \<in> set (bucket (synced (notifySteps rev' we vs s)) k') \<Longrightarrow>
   w' \<in> set (bucket (synced s) k')"
proof (induction vs arbitrary: s rule: visit_induct)
  case 1
  then show ?case by simp
next
  case (2 k w vs)
  from 2 have "w' \<in> set (bucket (synced (notifyWatcher rev' we k w s)) k')" by simp
  then show ?case by (rule notifyWatcher_synced_antimono)
qed

lemma notifySteps_frame:
  assumes "\<And>k w. (k, w) \<in> set vs \<Longrightarrow> w' \<noteq> w \<or> map_of we w = None"
  shows "heap (notifySteps rev' we vs s) w' = heap s w' \<and>
         (w' \<in> set (unsynced (notifySteps rev' we vs s)) \<longleftrightarrow> w' \<in> set (unsynced s)) \<and>
         (\<forall>k'. w' \<in> set (bucket (synced (notifySteps rev' we vs s)) k') \<longleftrightarrow>
               w' \<in> set (bucket (synced s) k'))"
  using assms
proof (induction vs arbitrary: s rule: visit_induct)
  case 1
  then show ?case by simp
next
  case (2 k w vs)
  let ?s1 = "notifyWatcher rev' we k w s"
  have a: "w' \<noteq> w \<or> map_of we w = None" using "2.prems" [of k w] by simp
  have ih: "heap (notifySteps rev' we vs ?s1) w' = heap ?s1 w' \<and>
         (w' \<in> set (unsynced (notifySteps rev' we vs ?s1)) \<longleftrightarrow> w' \<in> set (unsynced ?s1)) \<and>
         (\<forall>k'. w' \<in> set (bucket (synced (notifySteps rev' we vs ?s1)) k') \<longleftrightarrow>
               w' \<in> set (bucket (synced ?s1) k'))"
  proof (rule "2.IH")
    fix k'' w'' assume "(k'', w'') \<in> set vs"
    then show "w' \<noteq> w'' \<or> map_of we w'' = None" using "2.prems" [of k'' w''] by simp
  qed
  from ih notifyWatcher_frame [OF a, of rev' k s] show ?case by simp
qed

lemma sent_by_mono: "sent_by h we rv ws c r \<Longrightarrow> ws \<subseteq> ws' \<Longrightarrow> sent_by h we rv ws' c r"
  unfolding sent_by_def by blast

lemma sent_append: "chans s' c = chans s c @ ext \<Longrightarrow> sent s s' c = ext"
  by (simp add: sent_def)

lemma notifyWatcher_chans:
  "\<exists>ext. chans (notifyWatcher rev' we k w s) c = chans s c @ ext \<and>
         (\<forall>r \<in> set ext. sent_by (heap s) we (Rev (store s)) {w} c r)"
proof (cases rule: notifyWatcher_cases [of we w rev' k s])
  case skip
  then show ?thesis by simp
next
  case (sent es)
  show ?thesis
  proof (cases "c = ch (heap s w)")
    case True
    have "chans (notifyWatcher rev' we k w s) c =
        chans s c @ [response (heap s w) es (Rev (store s))]"
      unfolding sent(3) using True by (simp add: response_def)
    moreover have "sent_by (heap s) we (Rev (store s)) {w} c
        (response (heap s w) es (Rev (store s)))"
      using True sent(1) by (auto simp: sent_by_def)
    ultimately show ?thesis by auto
  next
    case False
    then show ?thesis unfolding sent(3) by simp
  qed
next
  case (demoted es)
  then show ?thesis by simp
qed

lemma sent_by_step:
  "sent_by (heap (notifyWatcher rev' we k w s)) we rv ws c r = sent_by (heap s) we rv ws c r"
  by (simp add: sent_by_def response_def)

lemma notifySteps_chans:
  "\<exists>ext. chans (notifySteps rev' we vs s) c = chans s c @ ext \<and>
         (\<forall>r \<in> set ext. sent_by (heap s) we (Rev (store s)) (snd ` set vs) c r)"
proof (induction vs arbitrary: s rule: visit_induct)
  case 1
  then show ?case by simp
next
  case (2 k w vs)
  let ?s1 = "notifyWatcher rev' we k w s"
  from notifyWatcher_chans [of rev' we k w s c] obtain e1 where
    e1: "chans ?s1 c = chans s c @ e1" "\<forall>r \<in> set e1. sent_by (heap s) we (Rev (store s)) {w} c r"
    by blast
  from "2.IH" [of ?s1] obtain e2 where
    e2: "chans (notifySteps rev' we vs ?s1) c = chans ?s1 c @ e2"
      "\<forall>r \<in> set e2. sent_by (heap ?s1) we (Rev (store ?s1)) (snd ` set vs) c r"
    by blast
  have "chans (notifySteps rev' we ((k, w) # vs) s) c = chans s c @ (e1 @ e2)"
    using e1(1) e2(1) by simp
  moreover have "\<forall>r \<in> set (e1 @ e2). sent_by (heap s) we (Rev (store s)) (snd ` set ((k, w) # vs)) c r"
  proof
    fix r assume "r \<in> set (e1 @ e2)"
    then consider "r \<in> set e1" | "r \<in> set e2" by auto
    then show "sent_by (heap s) we (Rev (store s)) (snd ` set ((k, w) # vs)) c r"
    proof cases
      case 1
      with e1(2) have "sent_by (heap s) we (Rev (store s)) {w} c r" by blast
      then show ?thesis by (rule sent_by_mono) auto
    next
      case 2
      with e2(2) have "sent_by (heap s) we (Rev (store s)) (snd ` set vs) c r"
        by (simp add: sent_by_step)
      then show ?thesis by (rule sent_by_mono) auto
    qed
  qed
  ultimately show ?case by blast
qed

lemma set_visits:
  "(k, w) \<in> set (visits sm) \<longleftrightarrow> (\<exists>wm. (k, wm) \<in> set sm \<and> w \<in> set wm)"
  by (induction sm) (auto simp: visits_def)

lemma distinct_visits:
  assumes "distinct (map fst sm)"
    "\<And>k wm. (k, wm) \<in> set sm \<Longrightarrow> distinct wm \<and> (\<forall>w \<in> set wm. f w = k)"
  shows "distinct (map snd (visits sm))"
  using assms
proof (induction sm)
  case Nil
  then show ?case by (simp add: visits_def)
next
  case (Cons p sm)
  obtain k wm where p: "p = (k, wm)" by (cases p)
  have v: "visits (p # sm) = map (Pair k) wm @ visits sm" by (simp add: visits_def p)
  have d: "distinct wm" and f: "\<forall>w \<in> set wm. f w = k" using Cons.prems(2) [of k wm] p by auto
  have ih: "distinct (map snd (visits sm))"
  proof (rule Cons.IH)
    show "distinct (map fst sm)" using Cons.prems(1) by simp
    show "distinct wm' \<and> (\<forall>w \<in> set wm'. f w = k')" if "(k', wm') \<in> set sm" for k' wm'
      using Cons.prems(2) [of k' wm'] that by simp
  qed
  have dj: "w \<notin> snd ` set (visits sm)" if "w \<in> set wm" for w
  proof
    assume "w \<in> snd ` set (visits sm)"
    then obtain k' where "(k', w) \<in> set (visits sm)" by force
    then obtain wm' where m: "(k', wm') \<in> set sm" "w \<in> set wm'" by (auto simp: set_visits)
    with Cons.prems(2) [of k' wm'] have "f w = k'" by simp
    moreover from f that have "f w = k" by simp
    ultimately have "k \<in> fst ` set sm" using m(1) by force
    with Cons.prems(1) p show False by simp
  qed
  have "map snd (visits (p # sm)) = wm @ map snd (visits sm)"
    unfolding v by (simp add: comp_def)
  with d ih dj show ?case by auto
qed

lemma invar_wf_registry: "invar s \<Longrightarrow> wf_registry (heap s) (synced s)"
  unfolding wf_registry_def using invar_bucket invar_bucket_distinct by blast

lemma invar_distinct_visits:
  assumes "invar s"
  shows "distinct (map snd (visits (synced s)))"
proof (rule distinct_visits [where f = "\<lambda>w. key (heap s w)"])
  show "distinct (map fst (synced s))" by (rule invar_keys [OF assms])
  fix k wm assume "(k, wm) \<in> set (synced s)"
  with invar_keys [OF assms] have m: "map_of (synced s) k = Some wm" by simp
  show "distinct wm \<and> (\<forall>w \<in> set wm. key (heap s w) = k)"
    using invar_bucket_distinct [OF assms m] invar_bucket [OF assms m] by blast
qed

lemma synced_ptrs_bucket:
  assumes "invar s"
  shows "w \<in> synced_ptrs s \<longleftrightarrow> (\<exists>k. w \<in> set (bucket (synced s) k))"
proof
  assume "w \<in> synced_ptrs s"
  with synced_ptrs_iff [OF assms, of w] obtain k wm where
    "map_of (synced s) k = Some wm" "w \<in> set wm" by blast
  then have "w \<in> set (bucket (synced s) k)" by (simp add: bucket_def)
  then show "\<exists>k. w \<in> set (bucket (synced s) k)" ..
next
  assume "\<exists>k. w \<in> set (bucket (synced s) k)"
  then obtain k where k: "w \<in> set (bucket (synced s) k)" ..
  then obtain wm where "map_of (synced s) k = Some wm" "w \<in> set wm"
    by (cases "map_of (synced s) k") (auto simp: bucket_def)
  with synced_ptrs_iff [OF assms, of w] show "w \<in> synced_ptrs s" by blast
qed

lemma synced_ptrs_own_bucket:
  assumes "invar s" "w \<in> synced_ptrs s"
  shows "w \<in> set (bucket (synced s) k) \<longleftrightarrow> k = key (heap s w)"
proof -
  from assms synced_ptrs_iff [OF assms(1), of w] obtain k0 wm where
    m: "map_of (synced s) k0 = Some wm" "w \<in> set wm" by blast
  from invar_bucket [OF assms(1) m] have k0: "k0 = key (heap s w)" by simp
  show ?thesis
  proof
    assume "w \<in> set (bucket (synced s) k)"
    then obtain wm' where m': "map_of (synced s) k = Some wm'" "w \<in> set wm'"
      by (cases "map_of (synced s) k") (auto simp: bucket_def)
    from invar_bucket [OF assms(1) m'] show "k = key (heap s w)" by simp
  next
    assume "k = key (heap s w)"
    with m k0 show "w \<in> set (bucket (synced s) k)" by (simp add: bucket_def)
  qed
qed

lemma synced_ptrs_registered:
  assumes "invar s"
  shows "registered (heap s) (synced s) w \<longleftrightarrow> w \<in> synced_ptrs s"
proof
  assume "registered (heap s) (synced s) w"
  then obtain v where "map_of (synced s) (key (heap s w)) = Some v" "w \<in> set v"
    unfolding registered_def by blast
  with synced_ptrs_iff [OF assms, of w] show "w \<in> synced_ptrs s" by blast
next
  assume a: "w \<in> synced_ptrs s"
  with synced_ptrs_own_bucket [OF assms a, of "key (heap s w)"]
  have "w \<in> set (bucket (synced s) (key (heap s w)))" by simp
  then show "registered (heap s) (synced s) w"
    by (cases "map_of (synced s) (key (heap s w))") (auto simp: bucket_def registered_def)
qed

lemma synced_ptrs_visits:
  assumes "invar s"
  shows "w \<in> synced_ptrs s \<longleftrightarrow> w \<in> snd ` set (visits (synced s))"
proof -
  have "w \<in> synced_ptrs s \<longleftrightarrow> (\<exists>k wm. (k, wm) \<in> set (synced s) \<and> w \<in> set wm)"
    by (force simp: synced_ptrs_def)
  also have "\<dots> \<longleftrightarrow> (\<exists>k. (k, w) \<in> set (visits (synced s)))" by (simp add: set_visits)
  also have "\<dots> \<longleftrightarrow> w \<in> snd ` set (visits (synced s))" by force
  finally show ?thesis .
qed

lemma notifySteps_watcher:
  assumes d: "distinct (map snd vs)" and m: "(k, w) \<in> set vs" and we: "map_of we w = Some es"
    and own: "\<And>k'. w \<in> set (bucket (synced s) k') \<longleftrightarrow> k' = k"
  shows "delivered_to s (notifySteps rev' we vs s) we (snd ` set vs) w es \<or>
         demoted_at rev' s (notifySteps rev' we vs s) we (snd ` set vs) w"
proof -
  let ?c = "ch (heap s w)" and ?rv = "Rev (store s)"
  from m obtain pre post where vs: "vs = pre @ (k, w) # post" by (meson split_list)
  from d have np: "w \<notin> snd ` set pre" and nq: "w \<notin> snd ` set post"
    unfolding vs by auto
  let ?s1 = "notifySteps rev' we pre s"
  let ?s2 = "notifyWatcher rev' we k w ?s1"
  let ?s3 = "notifySteps rev' we post ?s2"
  have s3: "notifySteps rev' we vs s = ?s3" unfolding vs by simp
  have f1: "heap ?s1 w = heap s w \<and>
         (w \<in> set (unsynced ?s1) \<longleftrightarrow> w \<in> set (unsynced s)) \<and>
         (\<forall>k'. w \<in> set (bucket (synced ?s1) k') \<longleftrightarrow> w \<in> set (bucket (synced s) k'))"
    by (rule notifySteps_frame) (use np in force)
  have f3: "heap ?s3 w = heap ?s2 w \<and>
         (w \<in> set (unsynced ?s3) \<longleftrightarrow> w \<in> set (unsynced ?s2)) \<and>
         (\<forall>k'. w \<in> set (bucket (synced ?s3) k') \<longleftrightarrow> w \<in> set (bucket (synced ?s2) k'))"
    by (rule notifySteps_frame) (use nq in force)
  from notifySteps_chans [of rev' we pre s ?c] obtain e1 where
    e1: "chans ?s1 ?c = chans s ?c @ e1"
      "\<forall>x \<in> set e1. sent_by (heap s) we ?rv (snd ` set pre) ?c x" by blast
  from notifySteps_chans [of rev' we post ?s2 ?c] obtain e3 where
    e3: "chans ?s3 ?c = chans ?s2 ?c @ e3"
      "\<forall>x \<in> set e3. sent_by (heap ?s2) we (Rev (store ?s2)) (snd ` set post) ?c x" by blast
  have o1: "sent_by (heap s) we ?rv (snd ` set vs - {w}) ?c x" if "x \<in> set e1" for x
  proof -
    from e1(2) that have "sent_by (heap s) we ?rv (snd ` set pre) ?c x" by blast
    then show ?thesis by (rule sent_by_mono) (use np vs in auto)
  qed
  have o3: "sent_by (heap s) we ?rv (snd ` set vs - {w}) ?c x" if "x \<in> set e3" for x
  proof -
    from e3(2) that have "sent_by (heap ?s2) we (Rev (store ?s2)) (snd ` set post) ?c x" by blast
    then have "sent_by (heap s) we ?rv (snd ` set post) ?c x"
      by (simp add: sent_by_def response_def)
    then show ?thesis by (rule sent_by_mono) (use nq vs in auto)
  qed
  have c1: "ch (heap ?s1 w) = ?c" "id_w (heap ?s1 w) = id_w (heap s w)" by simp_all
  show ?thesis
  proof (cases "length (chans ?s1 ?c) < cap ?s1 ?c")
    case True
    have s2: "?s2 = ?s1\<lparr>chans := (chans ?s1)(?c := chans ?s1 ?c @ [response (heap s w) es ?rv])\<rparr>"
      using notifyWatcher_sent [of we w es ?s1 rev' k] we True c1
      by (simp add: response_def)
    have h2: "heap ?s2 w = heap s w" "unsynced ?s2 = unsynced ?s1" "synced ?s2 = synced ?s1"
      "chans ?s2 ?c = chans s ?c @ e1 @ [response (heap s w) es ?rv]"
      using f1 e1(1) by (simp_all add: s2)
    have "sent s ?s3 ?c = e1 @ response (heap s w) es ?rv # e3"
      by (rule sent_append) (simp add: e3(1) h2(4))
    moreover have "\<forall>x \<in> set e1 \<union> set e3. sent_by (heap s) we ?rv (snd ` set vs - {w}) ?c x"
      using o1 o3 by blast
    ultimately have "delivered_to s ?s3 we (snd ` set vs) w es"
      unfolding delivered_to_def using f1 f3 h2(1,2,3) by auto
    then show ?thesis unfolding s3 ..
  next
    case False
    have s2: "?s2 = ?s1\<lparr>heap := (heap ?s1)(w := (heap ?s1 w)\<lparr>cur := rev'\<rparr>),
          unsynced := List.insert w (unsynced ?s1),
          synced := AList.map_entry k (removeAll w) (synced ?s1)\<rparr>"
      using notifyWatcher_demoted [of we w es ?s1 rev' k] we False c1 by simp
    have h2: "heap ?s2 w = (heap s w)\<lparr>cur := rev'\<rparr>" "w \<in> set (unsynced ?s2)"
      "chans ?s2 ?c = chans s ?c @ e1"
      using f1 e1(1) by (simp_all add: s2)
    have b2: "w \<notin> set (bucket (synced ?s2) k')" for k'
      using f1 own [of k'] by (simp add: s2 bucket_map_entry)
    have "sent s ?s3 ?c = e1 @ e3"
      by (rule sent_append) (simp add: e3(1) h2(3))
    moreover have "\<forall>x \<in> set (e1 @ e3). sent_by (heap s) we ?rv (snd ` set vs - {w}) ?c x"
      using o1 o3 by auto
    ultimately have "demoted_at rev' s ?s3 we (snd ` set vs) w"
      unfolding demoted_at_def using f3 h2(1,2) b2 by auto
    then show ?thesis unfolding s3 ..
  qed
qed

subsection \<open>The notifier on a state that satisfies the invariant\<close>

lemma notify_fanout:
  assumes "invar s"
  shows "map_of (newWatcherToEventMap (heap s) (synced s) evs) w =
           (if w \<in> synced_ptrs s \<and> (\<exists>e \<in> set evs. matches (heap s w) e)
            then Some (filter (matches (heap s w)) evs) else None)"
  using newWatcherToEventMap_map_of [OF invar_wf_registry [OF assms], of evs w]
    synced_ptrs_registered [OF assms, of w]
  by simp

lemma notify_frame:
  assumes "invar s" "\<not> (w \<in> synced_ptrs s \<and> (\<exists>e \<in> set evs. matches (heap s w) e))"
  shows "heap (notify rev' evs s) w = heap s w \<and>
         (w \<in> set (unsynced (notify rev' evs s)) \<longleftrightarrow> w \<in> set (unsynced s)) \<and>
         (\<forall>k. w \<in> set (bucket (synced (notify rev' evs s)) k) \<longleftrightarrow>
              w \<in> set (bucket (synced s) k))"
  unfolding notify_steps
proof (rule notifySteps_frame)
  fix k w' assume "(k, w') \<in> set (visits (synced s))"
  show "w \<noteq> w' \<or> map_of (newWatcherToEventMap (heap s) (synced s) evs) w' = None"
  proof (cases "w = w'")
    case True
    with assms(2) show ?thesis by (simp add: notify_fanout [OF assms(1)])
  next
    case False
    then show ?thesis by simp
  qed
qed

lemma notify_chans:
  assumes "invar s"
  shows "\<exists>ext. chans (notify rev' evs s) c = chans s c @ ext \<and>
           (\<forall>x \<in> set ext. \<exists>w. w \<in> synced_ptrs s \<and> ch (heap s w) = c \<and>
               filter (matches (heap s w)) evs \<noteq> [] \<and>
               x = response (heap s w) (filter (matches (heap s w)) evs) (Rev (store s)))"
proof -
  let ?we = "newWatcherToEventMap (heap s) (synced s) evs"
  from notifySteps_chans [of rev' ?we "visits (synced s)" s c] obtain ext where
    e: "chans (notify rev' evs s) c = chans s c @ ext"
      "\<forall>x \<in> set ext. sent_by (heap s) ?we (Rev (store s)) (snd ` set (visits (synced s))) c x"
    unfolding notify_steps by blast
  have "\<exists>w. w \<in> synced_ptrs s \<and> ch (heap s w) = c \<and>
               filter (matches (heap s w)) evs \<noteq> [] \<and>
               x = response (heap s w) (filter (matches (heap s w)) evs) (Rev (store s))"
    if "x \<in> set ext" for x
  proof -
    from e(2) that obtain w es where w: "ch (heap s w) = c" "map_of ?we w = Some es"
      "x = response (heap s w) es (Rev (store s))"
      unfolding sent_by_def by blast
    from w(2) have "w \<in> synced_ptrs s" "es = filter (matches (heap s w)) evs"
      "\<exists>e \<in> set evs. matches (heap s w) e"
      by (auto simp: notify_fanout [OF assms] split: if_splits)
    with w(1,3) show ?thesis by (auto simp: filter_empty_conv)
  qed
  with e(1) show ?thesis by blast
qed

lemma notify_keys:
  "map_of (synced (notify rev' evs s)) k = None \<longleftrightarrow> map_of (synced s) k = None"
  unfolding notify_steps by (rule notifySteps_keys)

lemma notify_store [simp]: "store (notify rev' evs s) = store s"
  unfolding notify_steps by simp

lemma TxnEnd_events:
  "map (\<lambda>change. case Value change of None \<Rightarrow> \<lparr>Type = DELETE, Kv = change\<rparr>
                  | Some _ \<Rightarrow> \<lparr>Type = PUT, Kv = change\<rparr>) cs = map txnEvent cs"
  by (simp add: txnEvent_def)

lemma mutation_handle:
  assumes "mutation s r E s1 s'"
  shows "s' = notify r E s1 \<and> E \<noteq> [] \<and> (\<exists>st. s1 = s\<lparr>store := st\<rparr>)"
  using assms
proof (cases rule: mutation.cases)
  case (put store_Put key' val lease st)
  from put have "s' = handle r [\<lparr>Type = PUT, Kv = getChanges st ! 0\<rparr>] (s\<lparr>store := st\<rparr>)"
    by (auto simp: Put_def Let_def split: if_splits)
  with put show ?thesis by (auto simp: handle_def)
next
  case (deleteRange store_DeleteRange key' end' n st)
  from deleteRange have "int (length (getChanges st)) = n"
    "s' = handle r (map (\<lambda>change. \<lparr>Type = DELETE, Kv = last (getChanges st)\<rparr>) (getChanges st))
            (s\<lparr>store := st\<rparr>)"
    by (auto simp: DeleteRange_def Let_def split: if_splits)
  with deleteRange show ?thesis by (auto simp: handle_def)
next
  case (txnEnd store_TxnEnd txnID st)
  from txnEnd have
    "s' = handle (Rev st) (map txnEvent (getChanges st)) (s\<lparr>store := st\<rparr>)"
    by (auto simp: TxnEnd_def Let_def TxnEnd_events split: if_splits)
  with txnEnd show ?thesis by (auto simp: handle_def)
qed

lemma filter_other_ids:
  assumes "\<forall>x \<in> set xs. sent_by (heap s) we rv (synced_ptrs s - {w}) (ch (heap s w)) x"
    "unique_id s w"
  shows "filter (\<lambda>x. WatchID x = id_w (heap s w)) xs = []"
proof -
  have "WatchID x \<noteq> id_w (heap s w)" if "x \<in> set xs" for x
  proof -
    from assms(1) that obtain w' es where
      w': "w' \<in> synced_ptrs s - {w}" "ch (heap s w') = ch (heap s w)"
        "x = response (heap s w') es rv"
      unfolding sent_by_def by blast
    from w'(1,2) assms(2) have "id_w (heap s w') \<noteq> id_w (heap s w)"
      unfolding unique_id_def by blast
    with w'(3) show ?thesis by (simp add: response_def)
  qed
  then show ?thesis by (simp add: filter_empty_conv)
qed

text \<open>The notifier on one synced watcher, in a state that satisfies the invariant.\<close>

lemma notify_watcher:
  assumes i: "invar s" and w: "w \<in> synced_ptrs s"
    and es: "es = filter (matches (heap s w)) evs" and c: "c = ch (heap s w)"
  shows
    "(es \<noteq> [] \<longrightarrow>
        (w \<in> synced_ptrs (notify rev' evs s) \<and> w \<notin> set (unsynced (notify rev' evs s)) \<and>
         heap (notify rev' evs s) w = heap s w \<and>
         response (heap s w) es (Rev (store s)) \<in> set (sent s (notify rev' evs s) c) \<and>
         (unique_id s w \<longrightarrow>
            filter (\<lambda>x. WatchID x = id_w (heap s w)) (sent s (notify rev' evs s) c) =
              [response (heap s w) es (Rev (store s))]))
        \<or>
        (w \<in> set (unsynced (notify rev' evs s)) \<and> w \<notin> synced_ptrs (notify rev' evs s) \<and>
         heap (notify rev' evs s) w = (heap s w)\<lparr>cur := rev'\<rparr> \<and>
         (unique_id s w \<longrightarrow>
            filter (\<lambda>x. WatchID x = id_w (heap s w)) (sent s (notify rev' evs s) c) = []))) \<and>
     (es = [] \<longrightarrow>
        w \<in> synced_ptrs (notify rev' evs s) \<and> w \<notin> set (unsynced (notify rev' evs s)) \<and>
        heap (notify rev' evs s) w = heap s w)"
proof -
  let ?s' = "notify rev' evs s"
  let ?we = "newWatcherToEventMap (heap s) (synced s) evs"
  let ?ws = "snd ` set (visits (synced s))"
  have i': "invar ?s'" by (rule invar_notify [OF i])
  have nu: "w \<notin> set (unsynced s)" using invar_disjoint [OF i, of w] w by blast
  have ws: "?ws = synced_ptrs s" using synced_ptrs_visits [OF i] by blast
  have 1: "w \<in> synced_ptrs ?s' \<and> w \<notin> set (unsynced ?s') \<and> heap ?s' w = heap s w" if "es = []"
  proof -
    from that es have "\<not> (w \<in> synced_ptrs s \<and> (\<exists>e \<in> set evs. matches (heap s w) e))"
      by (simp add: filter_empty_conv)
    from notify_frame [OF i this, of rev'] w nu
      synced_ptrs_bucket [OF i, of w] synced_ptrs_bucket [OF i', of w]
    show ?thesis by simp
  qed
  have 2: "(w \<in> synced_ptrs ?s' \<and> w \<notin> set (unsynced ?s') \<and>
         heap ?s' w = heap s w \<and>
         response (heap s w) es (Rev (store s)) \<in> set (sent s ?s' c) \<and>
         (unique_id s w \<longrightarrow>
            filter (\<lambda>x. WatchID x = id_w (heap s w)) (sent s ?s' c) =
              [response (heap s w) es (Rev (store s))]))
        \<or>
        (w \<in> set (unsynced ?s') \<and> w \<notin> synced_ptrs ?s' \<and>
         heap ?s' w = (heap s w)\<lparr>cur := rev'\<rparr> \<and>
         (unique_id s w \<longrightarrow>
            filter (\<lambda>x. WatchID x = id_w (heap s w)) (sent s ?s' c) = []))" if ne: "es \<noteq> []"
  proof -
    from ne es have ex: "\<exists>e \<in> set evs. matches (heap s w) e" by (simp add: filter_empty_conv)
    have m: "map_of ?we w = Some es" using notify_fanout [OF i, of evs w] w ex es by simp
    have v: "(key (heap s w), w) \<in> set (visits (synced s))"
    proof -
      from w ws obtain k where k: "(k, w) \<in> set (visits (synced s))" by force
      then obtain wm where "(k, wm) \<in> set (synced s)" "w \<in> set wm" by (auto simp: set_visits)
      with invar_keys [OF i] have "map_of (synced s) k = Some wm" "w \<in> set wm" by simp_all
      from invar_bucket [OF i this] k show ?thesis by simp
    qed
    from notifySteps_watcher [OF invar_distinct_visits [OF i] v m
        synced_ptrs_own_bucket [OF i w], of rev']
    consider (del) "delivered_to s ?s' ?we ?ws w es" | (dem) "demoted_at rev' s ?s' ?we ?ws w"
      unfolding notify_steps by blast
    then show ?thesis
    proof cases
      case del
      then obtain before after where
        h: "heap ?s' w = heap s w" "w \<in> set (unsynced ?s') \<longleftrightarrow> w \<in> set (unsynced s)"
          "\<forall>k'. w \<in> set (bucket (synced ?s') k') \<longleftrightarrow> w \<in> set (bucket (synced s) k')"
        and sn: "sent s ?s' c = before @ response (heap s w) es (Rev (store s)) # after"
        and ot: "\<forall>x \<in> set before \<union> set after.
           sent_by (heap s) ?we (Rev (store s)) (synced_ptrs s - {w}) (ch (heap s w)) x"
        unfolding delivered_to_def c ws by blast
      have a: "w \<in> synced_ptrs ?s'"
        using h(3) w synced_ptrs_bucket [OF i, of w] synced_ptrs_bucket [OF i', of w] by simp
      have b: "w \<notin> set (unsynced ?s')" using h(2) nu by simp
      have d: "response (heap s w) es (Rev (store s)) \<in> set (sent s ?s' c)"
        unfolding sn by simp
      have e: "filter (\<lambda>x. WatchID x = id_w (heap s w)) (sent s ?s' c) =
              [response (heap s w) es (Rev (store s))]" if u: "unique_id s w"
      proof -
        have "filter (\<lambda>x. WatchID x = id_w (heap s w)) before = []"
          by (rule filter_other_ids [OF _ u]) (use ot in blast)
        moreover have "filter (\<lambda>x. WatchID x = id_w (heap s w)) after = []"
          by (rule filter_other_ids [OF _ u]) (use ot in blast)
        ultimately show ?thesis unfolding sn by (simp add: response_def)
      qed
      from a b h(1) d e show ?thesis by blast
    next
      case dem
      then have h: "heap ?s' w = (heap s w)\<lparr>cur := rev'\<rparr>" "w \<in> set (unsynced ?s')"
          "\<forall>k'. w \<notin> set (bucket (synced ?s') k')"
        and ot: "\<forall>x \<in> set (sent s ?s' c).
           sent_by (heap s) ?we (Rev (store s)) (synced_ptrs s - {w}) (ch (heap s w)) x"
        unfolding demoted_at_def c ws by blast+
      have a: "w \<notin> synced_ptrs ?s'" using h(3) synced_ptrs_bucket [OF i', of w] by simp
      have e: "filter (\<lambda>x. WatchID x = id_w (heap s w)) (sent s ?s' c) = []"
        if u: "unique_id s w"
        by (rule filter_other_ids [OF ot u])
      from a h(1,2) e show ?thesis by blast
    qed
  qed
  from 1 2 show ?thesis by blast
qed

lemma mutation_ex_once:
  "mutation ex_synced 2 [\<lparr>Type = PUT, Kv = ex_kv ''k'' 2\<rparr>]
     (ex_synced\<lparr>store := snd (ex_put ''k'' None 0 (store ex_synced))\<rparr>) ex_once"
proof -
  let ?st = "snd (ex_put ''k'' None 0 (store ex_synced))"
  have 1: "ex_put ''k'' None 0 (store ex_synced) = (2, ?st)"
    by (simp add: ex_put_def ex_synced_def ex0_def makeChan_def newWatchableStore_def ex_store_def)
  have 2: "Put ex_put ''k'' None 0 ex_synced = Inr (2, ex_once)"
    unfolding ex_once_def
    by (subst Put_ex_put)
      (simp add: Put_def Let_def ex_put_def ex_synced_def ex0_def makeChan_def
        newWatchableStore_def ex_store_def getChanges_def)
  have 3: "getChanges ?st ! 0 = ex_kv ''k'' 2"
    by (simp add: ex_put_def ex_synced_def ex0_def makeChan_def newWatchableStore_def ex_store_def
        getChanges_def)
  from mutation.put [OF 1 2] 3 show ?thesis by simp
qed

lemma Kv_txnEvent [simp]: "Kv (txnEvent change) = change"
  by (simp add: txnEvent_def split: option.splits)

subsection \<open>Watchers that enter or stay in the synced map\<close>

lemma update_member: "(k, v) \<in> set (AList.update k v al)"
  by (induction al) auto

lemma watch_synced:
  assumes "watch key' prefix' 0 id' ch' s = Inr (r, s')"
  shows "fst r = nextp s \<and> fst r \<in> synced_ptrs s' \<and> cur (heap s' (fst r)) = 0"
proof -
  let ?s1 = "s\<lparr>heap := (heap s)(nextp s := \<lparr>key = key', prefix = prefix', cur = 0,
                                          id_w = id', ch = ch'\<rparr>), nextp := Suc (nextp s)\<rparr>"
  from assms obtain mp where mp: "unsafeAddWatcher (synced ?s1) key' (nextp s) = Inr mp"
    and s': "s' = ?s1\<lparr>synced := mp\<rparr>" and wa: "fst r = nextp s"
    by (auto simp: watch_def Let_def split: sum.splits)
  from unsafeAddWatcher_Inr [OF mp]
  have "(key', bucket (synced ?s1) key' @ [fst r]) \<in> set mp"
    using wa by (simp add: update_member)
  then have "fst r \<in> synced_ptrs s'" unfolding synced_ptrs_def s' by force
  moreover have "cur (heap s' (fst r)) = 0" unfolding s' wa by simp
  ultimately show ?thesis using wa by blast
qed

lemma syncWatcher_synced_ptrs:
  assumes "invar s" "syncWatcher w es s = Inr s'" "w' \<in> synced_ptrs s'"
  shows "w' \<in> synced_ptrs s \<or> (w' = w \<and> w \<in> set (unsynced s) - set (unsynced s') \<or> w' = w)"
  using assms(2)
proof (cases rule: syncWatcher_cases)
  case blocked
  with assms(3) show ?thesis by simp
next
  case promoted
  let ?k = "key (heap s w)"
  let ?sm = "AList.update ?k (bucket (synced s) ?k @ [w]) (synced s)"
  have d: "distinct (map fst ?sm)" using invar_keys [OF assms(1)] by (simp add: distinct_update)
  from assms(3) obtain k wm where "(k, wm) \<in> set ?sm" "w' \<in> set wm"
    unfolding promoted(4) synced_ptrs_def by auto
  with d have m: "map_of ?sm k = Some wm" by simp
  show ?thesis
  proof (cases "k = ?k")
    case True
    with m have "wm = bucket (synced s) ?k @ [w]" by (simp add: update_conv')
    with \<open>w' \<in> set wm\<close> consider "w' = w" | "w' \<in> set (bucket (synced s) ?k)" by auto
    then show ?thesis
    proof cases
      case 1
      then show ?thesis by simp
    next
      case 2
      then have "w' \<in> synced_ptrs s" using synced_ptrs_bucket [OF assms(1), of w'] by blast
      then show ?thesis ..
    qed
  next
    case False
    with m have "map_of (synced s) k = Some wm" by (simp add: update_conv')
    with \<open>w' \<in> set wm\<close> have "w' \<in> synced_ptrs s"
      using synced_ptrs_iff [OF assms(1), of w'] by blast
    then show ?thesis ..
  qed
qed

lemma syncSend_synced_ptrs:
  assumes "invar s" "\<And>w es. (w, es) \<in> set wes \<Longrightarrow> allocated s w" "syncSend wes s = Inr s'"
    "w' \<in> synced_ptrs s'"
  shows "w' \<in> synced_ptrs s \<or> w' \<in> fst ` set wes"
  using assms
proof (induction wes arbitrary: s)
  case Nil
  then show ?case by simp
next
  case (Cons p wes)
  obtain w es where p: "p = (w, es)" by (cases p)
  from Cons.prems(3) p obtain s1 where s1: "syncWatcher w es s = Inr s1"
    and r: "syncSend wes s1 = Inr s'"
    by (auto split: sum.splits)
  have i1: "invar s1"
    by (rule invar_syncWatcher [OF Cons.prems(1) _ s1]) (use Cons.prems(2) p in auto)
  have "w' \<in> synced_ptrs s1 \<or> w' \<in> fst ` set wes"
  proof (rule Cons.IH [OF i1 _ r Cons.prems(4)])
    fix w'' es'' assume "(w'', es'') \<in> set wes"
    then have "allocated s w''" using Cons.prems(2) by auto
    then show "allocated s1 w''" using syncWatcher_frame [OF s1] by (simp add: allocated_def)
  qed
  then show ?case
  proof
    assume "w' \<in> synced_ptrs s1"
    from syncWatcher_synced_ptrs [OF Cons.prems(1) s1 this] p show ?thesis by auto
  next
    assume "w' \<in> fst ` set wes"
    then show ?thesis by auto
  qed
qed

lemma syncWatchers_promoted:
  assumes "invar s" "syncWatchers s = Inr s'" "w \<in> synced_ptrs s'" "w \<notin> synced_ptrs s"
  shows "w \<in> set (unsynced s) \<and> cur (heap s' w) = cur (heap s w) \<and>
         cur (heap s' w) \<le> currentRev (store s')"
proof (cases "length (unsynced s) = 0")
  case True
  with assms show ?thesis by (simp add: syncWatchers_def)
next
  case False
  with assms(2) obtain w2e s1 where sc: "syncScan s = Inr (w2e, s1)"
    and sd: "syncSend w2e s1 = Inr s'"
    by (auto simp: syncWatchers_def split: sum.splits)
  from sc obtain uns lo where s1: "s1 = s\<lparr>unsynced := uns\<rparr>"
    and u: "set uns = {w \<in> set (unsynced s). kept (heap s) (compactMainRev (store s)) w}"
    and d: "distinct (unsynced s) \<longrightarrow> distinct uns"
    and le: "\<forall>w \<in> set (unsynced s). cur (heap s w) \<le> currentRev (store s)"
    and m: "\<forall>w. map_of w2e w =
       (if w \<in> set uns \<and>
           (\<exists>e \<in> set (scannedEvents (UnsafeRange (store s) lo (currentRev (store s) + 1))).
              matches (heap s w) e)
        then Some (filter (matches (heap s w))
                     (scannedEvents (UnsafeRange (store s) lo (currentRev (store s) + 1))))
        else None)"
    by (rule syncScan_result)
  have i1: "invar s1" unfolding s1
    by (rule invar_sub_unsynced [OF assms(1)]) (use u d invar_unsynced [OF assms(1)] in auto)
  have in_uns: "w' \<in> set uns" if "(w', es) \<in> set w2e" for w' es
  proof -
    from that have "map_of w2e w' \<noteq> None" by (metis weak_map_of_SomeI option.distinct(1))
    with m show ?thesis by (auto split: if_splits)
  qed
  have al: "allocated s1 w'" if "(w', es) \<in> set w2e" for w' es
    using in_uns [OF that] invar_unsynced_alloc [OF i1, of w'] s1 by simp
  from syncSend_synced_ptrs [OF i1 al sd assms(3)] assms(4)
  have "w \<in> fst ` set w2e" by (auto simp: s1 synced_ptrs_def)
  then obtain es where "(w, es) \<in> set w2e" by force
  from in_uns [OF this] u have wu: "w \<in> set (unsynced s)" by simp
  from syncSend_frame [OF sd] have "heap s' = heap s" "store s' = store s" by (simp_all add: s1)
  with wu le show ?thesis by simp
qed

lemma notify_stays_synced:
  assumes "invar s" "w \<in> synced_ptrs (notify rev' evs s)"
  shows "w \<in> synced_ptrs s \<and> heap (notify rev' evs s) w = heap s w"
proof -
  have i': "invar (notify rev' evs s)" by (rule invar_notify [OF assms(1)])
  from assms(2) synced_ptrs_bucket [OF i', of w] obtain k where
    "w \<in> set (bucket (synced (notify rev' evs s)) k)" by blast
  then have "w \<in> set (bucket (synced s) k)"
    unfolding notify_steps by (rule notifySteps_synced_antimono)
  then have w: "w \<in> synced_ptrs s" using synced_ptrs_bucket [OF assms(1), of w] by blast
  from notify_watcher [OF assms(1) w refl refl, of evs rev'] assms(2)
  have "heap (notify rev' evs s) w = heap s w" by blast
  with w show ?thesis ..
qed

lemmas sync_defs = syncWatchers_def syncScan_def syncWatcher_def unsafeAddWatcher_def recv_def
  UnsafeRange_def MaxInt64_def isTombstone_def

lemma reachable_recv_ex_twice: "reachable (recv 0 ex_twice)"
  by (rule reachable.recv [OF reachable_ex_twice])

lemma syncWatchers_ex_twice: "syncWatchers (recv 0 ex_twice) = Inr ex_promoted"
  by (simp add: ex_promoted_def ex_defs sync_defs)

lemma ex_promoted_facts:
  "Suc 0 \<in> synced_ptrs ex_promoted \<and> Suc 0 \<notin> synced_ptrs (recv 0 ex_twice) \<and>
   cur (heap ex_promoted (Suc 0)) = 3 \<and> currentRev (store ex_promoted) = 3"
  by (simp add: ex_promoted_def ex_defs sync_defs synced_ptrs_def)

subsection \<open>Mutations of the facade on a synced watcher\<close>

text \<open>
  What a mutation of the facade does to a watcher \<open>w\<close> of the synced map, in terms of
  the events \<open>E\<close> that the facade hands to the notifier: the events of the changes for
  \<open>Put\<close> and \<open>TxnEnd\<close>, and as many copies of the event of the last change for
  \<open>DeleteRange\<close>. If \<open>w\<close> matches an event of \<open>E\<close>, either it stays in the synced map,
  unchanged, and its channel receives the response with its identifier, its matching
  events of \<open>E\<close> in order and the revision \<open>r\<close>; or it is in the unsynced set with
  \<open>cur = r\<close> and in no bucket of the synced map. If it matches no event of \<open>E\<close> it stays
  in the synced map, unchanged.
\<close>

lemma mutation_delivers_or_demotes:
  assumes "reachable s" "mutation s r E s1 s'" "Rev (store s1) = r" "w \<in> synced_ptrs s"
  shows
    "((\<exists>e \<in> set E. matches (heap s w) e) \<longrightarrow>
        (w \<in> synced_ptrs s' \<and> w \<notin> set (unsynced s') \<and> heap s' w = heap s w \<and>
         response (heap s w) (filter (matches (heap s w)) E) r
           \<in> set (sent s s' (ch (heap s w))) \<and>
         (unique_id s w \<longrightarrow>
            filter (\<lambda>x. WatchID x = id_w (heap s w)) (sent s s' (ch (heap s w))) =
              [response (heap s w) (filter (matches (heap s w)) E) r]))
        \<or>
        (w \<in> set (unsynced s') \<and> w \<notin> synced_ptrs s' \<and>
         heap s' w = (heap s w)\<lparr>cur := r\<rparr> \<and>
         (unique_id s w \<longrightarrow>
            filter (\<lambda>x. WatchID x = id_w (heap s w)) (sent s s' (ch (heap s w))) = []))) \<and>
     (\<not> (\<exists>e \<in> set E. matches (heap s w) e) \<longrightarrow>
        w \<in> synced_ptrs s' \<and> w \<notin> set (unsynced s') \<and> heap s' w = heap s w)"
proof -
  from mutation_handle [OF assms(2)] obtain st where
    s': "s' = notify r E s1" and s1: "s1 = s\<lparr>store := st\<rparr>" by blast
  have i1: "invar s1" unfolding s1 by (rule invar_store [OF reachable_invar [OF assms(1)]])
  have eq: "heap s1 = heap s" "synced_ptrs s1 = synced_ptrs s" "unique_id s1 w = unique_id s w"
    "\<And>c. sent s1 s' c = sent s s' c"
    by (simp_all add: s1 synced_ptrs_def unique_id_def sent_def)
  have w1: "w \<in> synced_ptrs s1" using assms(4) eq(2) by simp
  have ne: "filter (matches (heap s w)) E \<noteq> [] \<longleftrightarrow> (\<exists>e \<in> set E. matches (heap s w) e)"
    by (simp add: filter_empty_conv)
  from notify_watcher [OF i1 w1 refl refl, of E r]
  show ?thesis unfolding s' [symmetric] eq assms(3) ne by simp
qed

lemma mutation_delivers_or_demotes_witness:
  "reachable ex_synced \<and>
   mutation ex_synced 2 [\<lparr>Type = PUT, Kv = ex_kv ''k'' 2\<rparr>]
     (ex_synced\<lparr>store := snd (ex_put ''k'' None 0 (store ex_synced))\<rparr>) ex_once \<and>
   Suc 0 \<in> synced_ptrs ex_synced \<and>
   matches (heap ex_synced (Suc 0)) \<lparr>Type = PUT, Kv = ex_kv ''k'' 2\<rparr> \<and>
   Suc 0 \<in> synced_ptrs ex_once \<and> Suc 0 \<notin> set (unsynced ex_once) \<and>
   response (heap ex_synced (Suc 0)) [\<lparr>Type = PUT, Kv = ex_kv ''k'' 2\<rparr>] 2
     \<in> set (sent ex_synced ex_once 0)"
proof -
  let ?ev = "\<lparr>Type = PUT, Kv = ex_kv ''k'' 2\<rparr>"
  let ?s1 = "ex_synced\<lparr>store := snd (ex_put ''k'' None 0 (store ex_synced))\<rparr>"
  have rv: "Rev (store ?s1) = 2"
    by (simp add: Rev_def ex_put_def ex_synced_def ex0_def makeChan_def newWatchableStore_def
        ex_store_def)
  have m: "matches (heap ex_synced (Suc 0)) ?ev"
    by (simp add: matches_def ex_synced_def ex_kv_def)
  have c: "ch (heap ex_synced (Suc 0)) = 0" by (simp add: ex_synced_def)
  have nu: "Suc 0 \<notin> set (unsynced ex_once)" by (simp add: ex_defs)
  from mutation_delivers_or_demotes [OF reachable_ex_synced mutation_ex_once rv ex_synced_member]
    m nu
  have "Suc 0 \<in> synced_ptrs ex_once \<and>
        response (heap ex_synced (Suc 0)) (filter (matches (heap ex_synced (Suc 0))) [?ev]) 2
          \<in> set (sent ex_synced ex_once (ch (heap ex_synced (Suc 0))))"
    by auto
  with m c have "Suc 0 \<in> synced_ptrs ex_once \<and>
        response (heap ex_synced (Suc 0)) [?ev] 2 \<in> set (sent ex_synced ex_once 0)"
    by simp
  with reachable_ex_synced mutation_ex_once ex_synced_member m nu show ?thesis by blast
qed

subsection \<open>The revision of a synced watcher\<close>

text \<open>
  No operation writes the \<open>cur\<close> of a watcher that is or becomes a member of the synced
  map: \<open>watch\<close> with \<open>startRev = 0\<close> stores \<open>cur = 0\<close>; a watcher that a sync pass moves
  from the unsynced set to the synced map keeps its \<open>cur\<close>, which is at most the current
  revision of the store; and \<open>notify\<close> leaves the \<open>cur\<close> of every watcher that stays in
  the synced map as it was.
\<close>

lemma synced_cur_not_advanced:
  "(watch key' prefix' 0 id' ch' s0 = Inr (r, s1) \<longrightarrow>
      fst r \<in> synced_ptrs s1 \<and> cur (heap s1 (fst r)) = 0) \<and>
   (reachable s \<and> syncWatchers s = Inr s' \<and> w \<in> synced_ptrs s' \<and> w \<notin> synced_ptrs s \<longrightarrow>
      w \<in> set (unsynced s) \<and> cur (heap s' w) = cur (heap s w) \<and>
      cur (heap s' w) \<le> currentRev (store s')) \<and>
   (reachable s \<and> w \<in> synced_ptrs (notify rev' evs s) \<longrightarrow>
      w \<in> synced_ptrs s \<and> cur (heap (notify rev' evs s) w) = cur (heap s w))"
proof (intro conjI impI)
  assume "watch key' prefix' 0 id' ch' s0 = Inr (r, s1)"
  from watch_synced [OF this]
  show "fst r \<in> synced_ptrs s1" "cur (heap s1 (fst r)) = 0" by blast+
next
  assume a: "reachable s \<and> syncWatchers s = Inr s' \<and> w \<in> synced_ptrs s' \<and> w \<notin> synced_ptrs s"
  then have "invar s" using reachable_invar by blast
  from a have b: "syncWatchers s = Inr s'" "w \<in> synced_ptrs s'" "w \<notin> synced_ptrs s"
    by blast+
  from syncWatchers_promoted [OF \<open>invar s\<close> b]
  show "w \<in> set (unsynced s)" "cur (heap s' w) = cur (heap s w)"
    "cur (heap s' w) \<le> currentRev (store s')"
    by blast+
next
  assume a: "reachable s \<and> w \<in> synced_ptrs (notify rev' evs s)"
  then have "invar s" using reachable_invar by blast
  from a have "w \<in> synced_ptrs (notify rev' evs s)" by blast
  from notify_stays_synced [OF \<open>invar s\<close> this]
  show "w \<in> synced_ptrs s" "cur (heap (notify rev' evs s) w) = cur (heap s w)" by simp_all
qed

lemma synced_cur_not_advanced_witness:
  "watch ''k'' False 0 7 0 ex0 = Inr ((Suc 0, cancel (Suc 0) ''k''), ex_synced) \<and>
   Suc 0 \<in> synced_ptrs ex_synced \<and> cur (heap ex_synced (Suc 0)) = 0 \<and>
   reachable (recv 0 ex_twice) \<and> syncWatchers (recv 0 ex_twice) = Inr ex_promoted \<and>
   Suc 0 \<in> synced_ptrs ex_promoted \<and> Suc 0 \<notin> synced_ptrs (recv 0 ex_twice) \<and>
   Suc 0 \<in> set (unsynced (recv 0 ex_twice)) \<and>
   cur (heap ex_promoted (Suc 0)) = cur (heap (recv 0 ex_twice) (Suc 0)) \<and>
   cur (heap ex_promoted (Suc 0)) \<le> currentRev (store ex_promoted)"
proof -
  note t = synced_cur_not_advanced [where key' = "''k''" and prefix' = False and id' = 7
      and ch' = 0 and ?s0.0 = ex0 and r = "(Suc 0, cancel (Suc 0) ''k'')" and ?s1.0 = ex_synced
      and s = "recv 0 ex_twice" and s' = ex_promoted and w = "Suc 0"]
  from t watch_ex0 have 1: "Suc 0 \<in> synced_ptrs ex_synced \<and> cur (heap ex_synced (Suc 0)) = 0"
    by simp
  from t reachable_recv_ex_twice syncWatchers_ex_twice ex_promoted_facts
  have 2: "Suc 0 \<in> set (unsynced (recv 0 ex_twice)) \<and>
   cur (heap ex_promoted (Suc 0)) = cur (heap (recv 0 ex_twice) (Suc 0)) \<and>
   cur (heap ex_promoted (Suc 0)) \<le> currentRev (store ex_promoted)"
    by blast
  from 1 2 watch_ex0 reachable_recv_ex_twice syncWatchers_ex_twice ex_promoted_facts
  show ?thesis by blast
qed

subsection \<open>Further example runs\<close>

lemmas del_defs = ex_deleted_def ex_ab_def ex_a_def ex_delete_range_def ex_deleted_kv_def
  DeleteRange_def watch_def unsafeAddWatcher_def

lemma reachable_ex_a: "reachable ex_a"
  unfolding ex_a_def
  by (rule reachable.watch [OF reachable.chan [OF reachable_ex0, of 1], of "''a''" False 0 7 0
        "fst (projr (watch ''a'' False 0 7 0 (snd (makeChan 1 ex0))))"])
     (simp add: watch_def unsafeAddWatcher_def ex_defs)

lemma reachable_ex_ab: "reachable ex_ab"
  unfolding ex_ab_def
  by (rule reachable.watch [OF reachable_ex_a, of "''b''" False 0 8 1
        "fst (projr (watch ''b'' False 0 8 1 ex_a))"])
     (simp add: ex_a_def watch_def unsafeAddWatcher_def ex_defs)

lemma DeleteRange_ex_ab:
  "DeleteRange ex_delete_range ''a'' ''c'' ex_ab = Inr ((2, 2), ex_deleted)"
  by (simp add: del_defs ex_defs)

lemma ex_ab_facts:
  "synced ex_ab = [(''a'', [Suc 0]), (''b'', [Suc (Suc 0)])] \<and> unsynced ex_ab = [] \<and>
   heap ex_ab (Suc 0) = \<lparr>key = ''a'', prefix = False, cur = 0, id_w = 7, ch = 0\<rparr> \<and>
   heap ex_ab (Suc (Suc 0)) = \<lparr>key = ''b'', prefix = False, cur = 0, id_w = 8, ch = 1\<rparr> \<and>
   chans ex_ab 0 = [] \<and> chans ex_ab 1 = [] \<and> cap ex_ab 0 = 1 \<and> cap ex_ab 1 = 1"
  by (simp add: del_defs ex_defs)

lemma ex_deleted_facts:
  "getChanges (store ex_deleted) = [ex_deleted_kv ''a'', ex_deleted_kv ''b''] \<and>
   synced ex_deleted = [(''a'', [Suc 0]), (''b'', [Suc (Suc 0)])] \<and> unsynced ex_deleted = [] \<and>
   heap ex_deleted (Suc 0) = heap ex_ab (Suc 0) \<and>
   chans ex_deleted 0 = [] \<and>
   chans ex_deleted 1 =
     [\<lparr>WatchID = 8,
       Events = [\<lparr>Type = DELETE, Kv = ex_deleted_kv ''b''\<rparr>,
                 \<lparr>Type = DELETE, Kv = ex_deleted_kv ''b''\<rparr>],
       Revision = 2\<rparr>]"
  by (simp add: del_defs ex_defs)

lemma reachable_ex_promoted: "reachable ex_promoted"
  by (rule reachable.sync [OF reachable_recv_ex_twice syncWatchers_ex_twice])

lemma reachable_ex_behind: "reachable ex_behind"
  unfolding ex_behind_def
  by (rule reachable.Put [OF reachable_ex_promoted, of ex_put "''z''" None 0
        "fst (projr (Put ex_put ''z'' None 0 ex_promoted))"])
     (simp add: Put_ex_put [symmetric])

lemma ex_once_facts:
  "Suc 0 \<in> synced_ptrs ex_once \<and> cur (heap ex_once (Suc 0)) = 0 \<and>
   currentRev (store ex_once) = 2 \<and>
   chans ex_once 0 =
     [\<lparr>WatchID = 7, Events = [\<lparr>Type = PUT, Kv = ex_kv ''k'' 2\<rparr>], Revision = 2\<rparr>]"
  by (simp add: ex_defs synced_ptrs_def)

lemma ex_behind_facts:
  "Suc 0 \<in> synced_ptrs ex_behind \<and> cur (heap ex_behind (Suc 0)) = 3 \<and>
   currentRev (store ex_behind) = 4"
  by (simp add: ex_behind_def ex_promoted_def ex_defs sync_defs synced_ptrs_def)

section \<open>Claims\<close>

text \<open>
  Claim C1 fails on the code for \<open>DeleteRange\<close>. Every event of the call takes the
  address of the one loop variable, so the notifier reads, for each deleted key, the
  event of the key deleted last. Here a watcher on \<open>a\<close> and a watcher on \<open>b\<close> are in the
  synced map, each with an empty channel of capacity one, and \<open>DeleteRange\<close> deletes
  \<open>a\<close> and \<open>b\<close> at revision 2. The watcher on \<open>a\<close> matches the deletion of \<open>a\<close>, yet
  nothing is sent to it and it is not demoted: it stays in the synced map with its
  \<open>cur\<close> as before. The watcher on \<open>b\<close> receives the deletion of \<open>b\<close> twice.
\<close>

theorem DeleteRange_misses_deleted_key:
  "reachable ex_ab \<and>
   DeleteRange ex_delete_range ''a'' ''c'' ex_ab = Inr ((2, 2), ex_deleted) \<and>
   getChanges (store ex_deleted) = [ex_deleted_kv ''a'', ex_deleted_kv ''b''] \<and>
   Suc 0 \<in> synced_ptrs ex_ab \<and>
   matches (heap ex_ab (Suc 0)) \<lparr>Type = DELETE, Kv = ex_deleted_kv ''a''\<rparr> \<and>
   ch (heap ex_ab (Suc 0)) = 0 \<and> sent ex_ab ex_deleted 0 = [] \<and>
   Suc 0 \<in> synced_ptrs ex_deleted \<and> Suc 0 \<notin> set (unsynced ex_deleted) \<and>
   cur (heap ex_deleted (Suc 0)) = 0 \<and>
   ch (heap ex_ab (Suc (Suc 0))) = 1 \<and>
   sent ex_ab ex_deleted 1 =
     [\<lparr>WatchID = 8,
       Events = [\<lparr>Type = DELETE, Kv = ex_deleted_kv ''b''\<rparr>,
                 \<lparr>Type = DELETE, Kv = ex_deleted_kv ''b''\<rparr>],
       Revision = 2\<rparr>]"
  using reachable_ex_ab DeleteRange_ex_ab ex_ab_facts ex_deleted_facts
  by (simp add: synced_ptrs_def sent_def matches_def ex_deleted_kv_def)

text \<open>
  Claim C2. A watcher is in the fan-out map that \<open>newWatcherToEventMap\<close> builds from
  a registry and an event list exactly when it is in the registry and matches one of
  the events (its key equals the event's key, or it watches a prefix and its key is a
  byte prefix of the event's key); the events listed for it are exactly the events it
  matches, in order. This holds for every well-formed registry, hence on the hot path,
  for the synced map of a reachable state, and in a sync pass, where the registry is
  the \<open>keyToUnsynced\<close> map of the watchers that stay unsynced and the events are those
  of the scanned records (the relevance filter of the pass drops no event that a
  watcher matches). A watcher of the empty prefix matches every event.
\<close>

theorem fanout_iff_matches:
  "(wf_registry h sm \<longrightarrow>
      map_of (newWatcherToEventMap h sm evs) w =
        (if registered h sm w \<and> (\<exists>e \<in> set evs. matches (h w) e)
         then Some (filter (matches (h w)) evs) else None)) \<and>
   (reachable s \<longrightarrow>
      map_of (newWatcherToEventMap (heap s) (synced s) evs) w =
        (if w \<in> synced_ptrs s \<and> (\<exists>e \<in> set evs. matches (heap s w) e)
         then Some (filter (matches (heap s w)) evs) else None)) \<and>
   (syncScan s = Inr (w2e, s1) \<longrightarrow>
      (\<exists>lo. \<forall>w'. map_of w2e w' =
         (if w' \<in> set (unsynced s1) \<and>
             (\<exists>e \<in> set (scannedEvents (UnsafeRange (store s) lo (currentRev (store s) + 1))).
                matches (heap s w') e)
          then Some (filter (matches (heap s w'))
                       (scannedEvents (UnsafeRange (store s) lo (currentRev (store s) + 1))))
          else None))) \<and>
   (prefix (h w) \<and> key (h w) = [] \<longrightarrow> matches (h w) e)"
proof (intro conjI impI)
  assume "wf_registry h sm"
  then show "map_of (newWatcherToEventMap h sm evs) w =
        (if registered h sm w \<and> (\<exists>e \<in> set evs. matches (h w) e)
         then Some (filter (matches (h w)) evs) else None)"
    by (rule newWatcherToEventMap_map_of)
next
  assume "reachable s"
  then have "invar s" by (rule reachable_invar)
  then show "map_of (newWatcherToEventMap (heap s) (synced s) evs) w =
        (if w \<in> synced_ptrs s \<and> (\<exists>e \<in> set evs. matches (heap s w) e)
         then Some (filter (matches (heap s w)) evs) else None)"
    by (rule notify_fanout)
next
  assume "syncScan s = Inr (w2e, s1)"
  then obtain uns lo where s1: "s1 = s\<lparr>unsynced := uns\<rparr>"
    and m: "\<forall>w. map_of w2e w =
       (if w \<in> set uns \<and>
           (\<exists>e \<in> set (scannedEvents (UnsafeRange (store s) lo (currentRev (store s) + 1))).
              matches (heap s w) e)
        then Some (filter (matches (heap s w))
                     (scannedEvents (UnsafeRange (store s) lo (currentRev (store s) + 1))))
        else None)"
    by (rule syncScan_result)
  from m have "\<forall>w'. map_of w2e w' =
         (if w' \<in> set (unsynced s1) \<and>
             (\<exists>e \<in> set (scannedEvents (UnsafeRange (store s) lo (currentRev (store s) + 1))).
                matches (heap s w') e)
          then Some (filter (matches (heap s w'))
                       (scannedEvents (UnsafeRange (store s) lo (currentRev (store s) + 1))))
          else None)"
    unfolding s1 by simp
  then show "\<exists>lo. \<forall>w'. map_of w2e w' =
         (if w' \<in> set (unsynced s1) \<and>
             (\<exists>e \<in> set (scannedEvents (UnsafeRange (store s) lo (currentRev (store s) + 1))).
                matches (heap s w') e)
          then Some (filter (matches (heap s w'))
                       (scannedEvents (UnsafeRange (store s) lo (currentRev (store s) + 1))))
          else None)" ..
next
  assume "prefix (h w) \<and> key (h w) = []"
  then show "matches (h w) e" by (simp add: matches_def HasPrefix_def)
qed

theorem fanout_iff_matches_witness:
  "wf_registry (\<lambda>_. \<lparr>key = ''fo'', prefix = True, cur = 0, id_w = 1, ch = 0\<rparr>) [(''fo'', [1])] \<and>
   map_of (newWatcherToEventMap (\<lambda>_. \<lparr>key = ''fo'', prefix = True, cur = 0, id_w = 1, ch = 0\<rparr>)
       [(''fo'', [1])] [\<lparr>Type = PUT, Kv = ex_kv ''foo'' 2\<rparr>]) 1 =
     Some [\<lparr>Type = PUT, Kv = ex_kv ''foo'' 2\<rparr>] \<and>
   reachable ex_synced \<and>
   map_of (newWatcherToEventMap (heap ex_synced) (synced ex_synced)
       [\<lparr>Type = PUT, Kv = ex_kv ''k'' 2\<rparr>, \<lparr>Type = PUT, Kv = ex_kv ''b'' 2\<rparr>]) (Suc 0) =
     Some [\<lparr>Type = PUT, Kv = ex_kv ''k'' 2\<rparr>]"
proof -
  let ?h = "\<lambda>_::ptr. \<lparr>key = ''fo'', prefix = True, cur = 0, id_w = 1, ch = 0\<rparr>"
  have wf: "wf_registry ?h [(''fo'', [1])]" by (simp add: wf_registry_def)
  from fanout_iff_matches [where h = ?h and sm = "[(''fo'', [1])]"
      and evs = "[\<lparr>Type = PUT, Kv = ex_kv ''foo'' 2\<rparr>]" and w = 1] wf
  have 1: "map_of (newWatcherToEventMap ?h [(''fo'', [1])] [\<lparr>Type = PUT, Kv = ex_kv ''foo'' 2\<rparr>]) 1 =
     Some [\<lparr>Type = PUT, Kv = ex_kv ''foo'' 2\<rparr>]"
    by (simp add: registered_def matches_def HasPrefix_def ex_kv_def)
  from fanout_iff_matches [where s = ex_synced and w = "Suc 0"
      and evs = "[\<lparr>Type = PUT, Kv = ex_kv ''k'' 2\<rparr>, \<lparr>Type = PUT, Kv = ex_kv ''b'' 2\<rparr>]"]
    reachable_ex_synced ex_synced_member
  have 2: "map_of (newWatcherToEventMap (heap ex_synced) (synced ex_synced)
       [\<lparr>Type = PUT, Kv = ex_kv ''k'' 2\<rparr>, \<lparr>Type = PUT, Kv = ex_kv ''b'' 2\<rparr>]) (Suc 0) =
     Some [\<lparr>Type = PUT, Kv = ex_kv ''k'' 2\<rparr>]"
    by (simp add: matches_def HasPrefix_def ex_kv_def ex_synced_def)
  from wf 1 reachable_ex_synced 2 show ?thesis by blast
qed

text \<open>
  Claim C3. In every reachable state a watcher is in at most one of the two partitions:
  it is never at once a member of the unsynced set and of a bucket of the synced map.
\<close>

theorem partitions_disjoint:
  "reachable s \<Longrightarrow> \<not> (w \<in> set (unsynced s) \<and> w \<in> synced_ptrs s)"
  by (rule invar_disjoint [OF reachable_invar])

theorem partitions_disjoint_witness:
  "reachable ex_synced \<and> Suc 0 \<in> synced_ptrs ex_synced \<and> Suc 0 \<notin> set (unsynced ex_synced)"
  using partitions_disjoint [OF reachable_ex_synced, of "Suc 0"] reachable_ex_synced
    ex_synced_member
  by blast

text \<open>
  Claim C4 fails on the code: nothing advances the \<open>cur\<close> of a watcher of the synced
  map. A watcher registered with \<open>startRev = 0\<close> is in the synced map with \<open>cur = 0\<close>
  while the store is at revision 1, and still has \<open>cur = 0\<close> after the event of
  revision 2 has been delivered to it. A watcher that a sync pass promotes from the
  unsynced set is in the synced map with \<open>cur = 3\<close> while the store is at revision 3,
  and remains there with \<open>cur = 3\<close> when the store moves on to revision 4.
\<close>

theorem synced_watcher_behind_store:
  "reachable ex_synced \<and> Suc 0 \<in> synced_ptrs ex_synced \<and>
   cur (heap ex_synced (Suc 0)) = 0 \<and> currentRev (store ex_synced) = 1 \<and>
   reachable ex_once \<and> Suc 0 \<in> synced_ptrs ex_once \<and>
   cur (heap ex_once (Suc 0)) = 0 \<and> currentRev (store ex_once) = 2 \<and>
   reachable ex_promoted \<and> Suc 0 \<in> synced_ptrs ex_promoted \<and>
   Suc 0 \<in> set (unsynced (recv 0 ex_twice)) \<and>
   cur (heap ex_promoted (Suc 0)) = 3 \<and> currentRev (store ex_promoted) = 3 \<and>
   reachable ex_behind \<and> Suc 0 \<in> synced_ptrs ex_behind \<and>
   cur (heap ex_behind (Suc 0)) = 3 \<and> currentRev (store ex_behind) = 4"
  using reachable_ex_synced ex_synced_member reachable_ex_once ex_once_facts
    reachable_ex_promoted ex_promoted_facts reachable_ex_behind ex_behind_facts
  by (simp add: ex_synced_def ex0_def makeChan_def newWatchableStore_def ex_store_def
      ex_twice_def ex_once_def recv_def Put_def handle_def notify_def newWatcherToEventMap_def
      notifyWatcher_def trySend_def getChanges_def Rev_def Let_def nil_def ex_put_def ex_kv_def)

text \<open>
  Claim C5 fails on the code: when \<open>notify\<close> demotes the last watcher of a bucket it
  deletes the watcher from the bucket and leaves the emptied bucket in the synced map.
  Here a watcher on \<open>k\<close> has a channel of capacity one; the first \<open>Put\<close> fills the
  channel and the second demotes the watcher. The state is reachable and holds the key
  \<open>k\<close> with an empty bucket.
\<close>

theorem notify_leaves_empty_bucket:
  "reachable ex_twice \<and> map_of (synced ex_twice) ''k'' = Some [] \<and>
   unsynced ex_twice = [Suc 0] \<and> cur (heap ex_twice (Suc 0)) = 3"
  using reachable_ex_twice by (simp add: ex_defs)

text \<open>
  Claim C6 fails on the code: \<open>watch\<close> with \<open>startRev = currentRev + 1\<close> puts the
  watcher into the unsynced set with \<open>cur = currentRev + 1\<close>, and a sync pass that runs
  before the next write finds \<open>w.cur > curRev\<close> and panics. A watcher registered with
  \<open>startRev = 0\<close> at the same moment is in the synced map and the sync pass returns.
\<close>

theorem future_watch_panics_in_sync:
  "startRev = currentRev (store s) + 1 \<Longrightarrow> startRev \<noteq> 0 \<Longrightarrow>
   watch key' prefix' startRev id' ch' s = Inr (r, s') \<Longrightarrow>
   syncWatchers s' =
     Inl (Panic ''watcher current revision should not exceed current revision'')"
proof -
  assume a: "startRev = currentRev (store s) + 1" "startRev \<noteq> 0"
    "watch key' prefix' startRev id' ch' s = Inr (r, s')"
  from a(2,3) have "nextp s \<in> set (unsynced s')" "cur (heap s' (nextp s)) = startRev"
    "store s' = store s"
    by (auto simp: watch_def Let_def)
  with a(1) show ?thesis using syncWatchers_panics [of "nextp s" s'] by simp
qed

theorem future_watch_panics_in_sync_witness:
  "reachable ex_future \<and>
   syncWatchers ex_future =
     Inl (Panic ''watcher current revision should not exceed current revision'') \<and>
   syncWatchers ex_synced = Inr ex_synced"
proof -
  have w: "watch ''k'' False (currentRev (store ex0) + 1) 7 0 ex0 =
      Inr (fst (projr (watch ''k'' False (currentRev (store ex0) + 1) 7 0 ex0)), ex_future)"
    unfolding ex_future_def
    by (simp add: watch_unsynced [symmetric] ex0_def makeChan_def newWatchableStore_def
        ex_store_def)
  have "currentRev (store ex0) + 1 \<noteq> 0"
    by (simp add: ex0_def makeChan_def newWatchableStore_def ex_store_def)
  from future_watch_panics_in_sync [OF refl this w]
  have "syncWatchers ex_future =
     Inl (Panic ''watcher current revision should not exceed current revision'')" .
  moreover have "syncWatchers ex_synced = Inr ex_synced"
    by (simp add: syncWatchers_def ex_synced_def ex0_def makeChan_def newWatchableStore_def)
  ultimately show ?thesis using reachable_ex_future by blast
qed

text \<open>
  Claim C7 fails on the code: a sync pass removes an unsynced watcher whose \<open>cur\<close> is
  below the compaction revision and sends nothing on its channel. Here the compaction
  revision is 10 and the watcher starts at revision 5; after the pass the watcher is in
  neither partition and its channel is as empty as before.
\<close>

theorem compacted_watcher_dropped_silently:
  "reachable ex_compacted \<and> unsynced ex_compacted = [Suc 0] \<and>
   cur (heap ex_compacted (Suc 0)) = 5 \<and> compactMainRev (store ex_compacted) = 10 \<and>
   chans ex_compacted 0 = [] \<and> cap ex_compacted 0 = 1 \<and>
   syncWatchers ex_compacted = Inr (ex_compacted\<lparr>unsynced := []\<rparr>)"
  using reachable_ex_compacted
  by (simp add: ex_compacted_def ex0_def makeChan_def newWatchableStore_def watch_def Let_def
      syncWatchers_def syncScan_def nil_def MaxInt64_def UnsafeRange_def newWatcherToEventMap_def)



text \<open>
  Claim C9. The cancel closure of a watcher is idempotent on the registry: in every
  reachable state, calling it twice leaves the state that calling it once leaves. After
  the first call the watcher is neither in the unsynced set nor in the bucket of the
  closure's key, and when that key is the watcher's own (as for every closure that
  \<open>watch\<close> returns) it is in no bucket of the synced map at all.
\<close>

theorem cancel_idempotent:
  "reachable s \<Longrightarrow>
   cancel wa k (cancel wa k s) = cancel wa k s \<and>
   wa \<notin> set (unsynced (cancel wa k s)) \<and>
   wa \<notin> set (bucket (synced (cancel wa k s)) k) \<and>
   (k = key (heap s wa) \<longrightarrow> wa \<notin> synced_ptrs (cancel wa k s))"
  using cancel_idem [OF reachable_invar, of s wa k] cancel_not_synced [OF reachable_invar, of s wa]
  by blast

theorem cancel_idempotent_witness:
  "reachable ex_synced \<and>
   cancel (Suc 0) ''k'' ex_synced \<noteq> ex_synced \<and>
   cancel (Suc 0) ''k'' (cancel (Suc 0) ''k'' ex_synced) = cancel (Suc 0) ''k'' ex_synced"
proof -
  have "synced (cancel (Suc 0) ''k'' ex_synced) \<noteq> synced ex_synced"
    unfolding cancel_ex_synced by (simp add: ex_synced_def)
  then have "cancel (Suc 0) ''k'' ex_synced \<noteq> ex_synced" by auto
  with cancel_idempotent [OF reachable_ex_synced, of "Suc 0" "''k''"] reachable_ex_synced
  show ?thesis by blast
qed

text \<open>
  Claim C10. A call of \<open>notify\<close> in a reachable state changes nothing but the watchers
  of the synced map that match an event of the call: every other watcher keeps all its
  fields and its membership in the unsynced set and in every bucket; in particular
  every watcher that was in the unsynced set is still there, with the same fields. The
  store and the keys of the synced map stay, and a channel receives responses only for
  matching synced watchers that send on it.
\<close>

theorem notify_frame_effect:
  "reachable s \<Longrightarrow>
   store (notify rev' evs s) = store s \<and>
   (\<forall>k. map_of (synced (notify rev' evs s)) k = None \<longleftrightarrow> map_of (synced s) k = None) \<and>
   (\<forall>w. \<not> (w \<in> synced_ptrs s \<and> (\<exists>e \<in> set evs. matches (heap s w) e)) \<longrightarrow>
        heap (notify rev' evs s) w = heap s w \<and>
        (w \<in> set (unsynced (notify rev' evs s)) \<longleftrightarrow> w \<in> set (unsynced s)) \<and>
        (w \<in> synced_ptrs (notify rev' evs s) \<longleftrightarrow> w \<in> synced_ptrs s) \<and>
        (\<forall>k. w \<in> set (bucket (synced (notify rev' evs s)) k) \<longleftrightarrow>
             w \<in> set (bucket (synced s) k))) \<and>
   (\<forall>w \<in> set (unsynced s).
        w \<in> set (unsynced (notify rev' evs s)) \<and> heap (notify rev' evs s) w = heap s w) \<and>
   (\<forall>c. (\<forall>w \<in> synced_ptrs s. (\<exists>e \<in> set evs. matches (heap s w) e) \<longrightarrow> ch (heap s w) \<noteq> c) \<longrightarrow>
        chans (notify rev' evs s) c = chans s c)"
proof -
  assume r: "reachable s"
  then have i: "invar s" by (rule reachable_invar)
  have i': "invar (notify rev' evs s)" by (rule invar_notify [OF i])
  have 1: "heap (notify rev' evs s) w = heap s w \<and>
        (w \<in> set (unsynced (notify rev' evs s)) \<longleftrightarrow> w \<in> set (unsynced s)) \<and>
        (w \<in> synced_ptrs (notify rev' evs s) \<longleftrightarrow> w \<in> synced_ptrs s) \<and>
        (\<forall>k. w \<in> set (bucket (synced (notify rev' evs s)) k) \<longleftrightarrow>
             w \<in> set (bucket (synced s) k))"
    if "\<not> (w \<in> synced_ptrs s \<and> (\<exists>e \<in> set evs. matches (heap s w) e))" for w
    using notify_frame [OF i that, of rev'] synced_ptrs_bucket [OF i, of w]
      synced_ptrs_bucket [OF i', of w]
    by simp
  have 2: "w \<in> set (unsynced (notify rev' evs s)) \<and> heap (notify rev' evs s) w = heap s w"
    if "w \<in> set (unsynced s)" for w
  proof -
    from that invar_disjoint [OF i, of w] have "w \<notin> synced_ptrs s" by blast
    then have "\<not> (w \<in> synced_ptrs s \<and> (\<exists>e \<in> set evs. matches (heap s w) e))" by simp
    from 1 [OF this] that show ?thesis by simp
  qed
  have 3: "chans (notify rev' evs s) c = chans s c"
    if "\<forall>w \<in> synced_ptrs s. (\<exists>e \<in> set evs. matches (heap s w) e) \<longrightarrow> ch (heap s w) \<noteq> c"
    for c
  proof -
    from notify_chans [OF i, of rev' evs c] obtain ext where
      e: "chans (notify rev' evs s) c = chans s c @ ext"
        "\<forall>x \<in> set ext. \<exists>w. w \<in> synced_ptrs s \<and> ch (heap s w) = c \<and>
               filter (matches (heap s w)) evs \<noteq> [] \<and>
               x = response (heap s w) (filter (matches (heap s w)) evs) (Rev (store s))"
      by blast
    have "ext = []"
    proof (cases ext)
      case Nil
      then show ?thesis .
    next
      case (Cons x xs)
      with e(2) obtain w where "w \<in> synced_ptrs s" "ch (heap s w) = c"
        "filter (matches (heap s w)) evs \<noteq> []" by auto
      with that show ?thesis by (auto simp: filter_empty_conv)
    qed
    with e(1) show ?thesis by simp
  qed
  from 1 2 3 show ?thesis by (simp add: notify_keys)
qed


theorem notify_frame_effect_witness:
  "reachable ex_synced \<and>
   \<not> matches (heap ex_synced (Suc 0)) \<lparr>Type = PUT, Kv = ex_kv ''b'' 2\<rparr> \<and>
   heap (notify 2 [\<lparr>Type = PUT, Kv = ex_kv ''b'' 2\<rparr>] ex_synced) (Suc 0) = heap ex_synced (Suc 0) \<and>
   Suc 0 \<in> synced_ptrs (notify 2 [\<lparr>Type = PUT, Kv = ex_kv ''b'' 2\<rparr>] ex_synced) \<and>
   Suc 0 \<notin> set (unsynced (notify 2 [\<lparr>Type = PUT, Kv = ex_kv ''b'' 2\<rparr>] ex_synced))"
proof -
  let ?ev = "\<lparr>Type = PUT, Kv = ex_kv ''b'' 2\<rparr>"
  have n: "\<not> matches (heap ex_synced (Suc 0)) ?ev"
    by (simp add: matches_def ex_synced_def ex_kv_def)
  then have "\<not> (Suc 0 \<in> synced_ptrs ex_synced \<and> (\<exists>e \<in> set [?ev]. matches (heap ex_synced (Suc 0)) e))"
    by simp
  with notify_frame_effect [OF reachable_ex_synced, of 2 "[?ev]"]
  have "heap (notify 2 [?ev] ex_synced) (Suc 0) = heap ex_synced (Suc 0) \<and>
        (Suc 0 \<in> set (unsynced (notify 2 [?ev] ex_synced)) \<longleftrightarrow> Suc 0 \<in> set (unsynced ex_synced)) \<and>
        (Suc 0 \<in> synced_ptrs (notify 2 [?ev] ex_synced) \<longleftrightarrow> Suc 0 \<in> synced_ptrs ex_synced)"
    by blast
  moreover have "Suc 0 \<notin> set (unsynced ex_synced)"
    by (simp add: ex_synced_def ex0_def makeChan_def newWatchableStore_def)
  ultimately show ?thesis using n reachable_ex_synced ex_synced_member by blast
qed

end
